theory Spec2Isabelle
  imports Complex_Main
begin

section \<open>Data model of the tracking script (app/static/js/exercise.js)\<close>

text \<open>
  The client script receives one evaluation per frame over a WebSocket, smooths the
  landmarks before drawing them, and drives a hold-to-complete countdown.  JavaScript
  numbers are modelled by \<^typ>\<open>real\<close> (exact arithmetic), the integer countdown by
  \<^typ>\<open>int\<close>.  The file holds two generations of the script; the definitions below follow
  the current one (the second, with the landmark history and the threshold 70), and
  \<open>handlePoseData_legacy\<close> records the countdown gate of the first.
\<close>

text \<open>A landmark is the array \<open>[x, y, z, visibility]\<close>; the selectors are the indices 0 to 3.\<close>

datatype landmark = Landmark (lm_x: real) (lm_y: real) (lm_z: real) (lm_vis: real)

type_synonym frame = "landmark list"

datatype js_error = TypeError

text \<open>
  The message of the server, after \<open>JSON.parse\<close>: \<open>success\<close> false with an optional
  message, or \<open>success\<close> true with landmarks, accuracy, feedback text and colour.
  Absent landmarks (\<open>undefined\<close> or \<open>null\<close>) are \<open>None\<close>.
\<close>

datatype evaluation =
  Failure "string option"
| Success (ev_landmarks: "frame option") (ev_accuracy: real) (ev_feedback: string) (ev_color: string)

section \<open>The landmark smoother (drawSkeleton)\<close>

definition smoothingFactor :: real where
  "smoothingFactor = 0.5"

definition maxHistoryFrames :: nat where
  "maxHistoryFrames = 3"

record smoother =
  landmarkHistory :: "frame list"
  lastLandmarks :: "frame option"

text \<open>
  The body of \<open>landmarkHistory.forEach\<close> for landmark index \<open>i\<close>: the accumulator is
  \<open>(weightedX, weightedY, totalWeight)\<close>, \<open>H\<close> is \<open>landmarkHistory.length\<close>.  Reading
  \<open>frame[i][0]\<close> where \<open>frame\<close> has no entry \<open>i\<close> raises a TypeError.
\<close>

fun accumulate :: "nat \<Rightarrow> nat \<Rightarrow> nat \<Rightarrow> frame list \<Rightarrow> real \<times> real \<times> real
    \<Rightarrow> js_error + (real \<times> real \<times> real)" where
  "accumulate H i frameIndex [] acc = Inr acc"
| "accumulate H i frameIndex (frame # rest) (weightedX, weightedY, totalWeight) =
     (if i < length frame then
        (let weight = real (frameIndex + 1) / real H in
         accumulate H i (frameIndex + 1) rest
           (weightedX + lm_x (frame ! i) * weight,
            weightedY + lm_y (frame ! i) * weight,
            totalWeight + weight))
      else Inl TypeError)"

definition weightedLandmark :: "frame list \<Rightarrow> landmark \<Rightarrow> nat \<Rightarrow> js_error + landmark" where
  "weightedLandmark history landmark i =
     (case accumulate (length history) i 0 history (0, 0, 0) of
        Inl e \<Rightarrow> Inl e
      | Inr (weightedX, weightedY, totalWeight) \<Rightarrow>
          Inr (Landmark (weightedX / totalWeight) (weightedY / totalWeight)
                 (lm_z landmark) (lm_vis landmark)))"

text \<open>\<open>Array.map\<close> with a callback that may throw: the first exception ends the map.\<close>

fun mapIndexed :: "('a \<Rightarrow> nat \<Rightarrow> js_error + 'b) \<Rightarrow> nat \<Rightarrow> 'a list \<Rightarrow> js_error + 'b list" where
  "mapIndexed f i [] = Inr []"
| "mapIndexed f i (x # xs) =
     (case f x i of
        Inl e \<Rightarrow> Inl e
      | Inr y \<Rightarrow> (case mapIndexed f (Suc i) xs of Inl e \<Rightarrow> Inl e | Inr ys \<Rightarrow> Inr (y # ys)))"

definition weightedAverage :: "frame list \<Rightarrow> frame \<Rightarrow> js_error + frame" where
  "weightedAverage history landmarks = mapIndexed (weightedLandmark history) 0 landmarks"

text \<open>
  The exponential step for one landmark and its predecessor \<open>lastLandmarks[i]\<close>; it runs
  only when both arrays have the same length, so every index is in range.
\<close>

definition blendLandmark :: "landmark \<Rightarrow> landmark \<Rightarrow> landmark" where
  "blendLandmark prev landmark =
     (if lm_vis landmark > 0.5 \<and> lm_vis prev > 0.5 then
        Landmark (lm_x prev * smoothingFactor + lm_x landmark * (1 - smoothingFactor))
                 (lm_y prev * smoothingFactor + lm_y landmark * (1 - smoothingFactor))
                 (lm_z landmark) (lm_vis landmark)
      else landmark)"

definition blend :: "frame \<Rightarrow> frame \<Rightarrow> frame" where
  "blend previous landmarks =
     map (\<lambda>(landmark, prev). blendLandmark prev landmark) (zip landmarks previous)"

text \<open>
  The two smoothing steps of \<open>drawSkeleton\<close>: the weighted average over the history, taken
  only when the history holds more than one frame, and the exponential step against
  \<open>lastLandmarks\<close>, taken only when that is set and has the length of the new landmarks.
\<close>

definition averageStep :: "frame list \<Rightarrow> frame \<Rightarrow> js_error + frame" where
  "averageStep history landmarks =
     (if length history > 1 then weightedAverage history landmarks else Inr landmarks)"

definition blendStep :: "frame option \<Rightarrow> frame \<Rightarrow> frame" where
  "blendStep lastOpt landmarks =
     (case lastOpt of
        None \<Rightarrow> landmarks
      | Some previous \<Rightarrow>
          if length previous = length landmarks then blend previous landmarks else landmarks)"

text \<open>\<open>landmarkHistory.push\<close>, then one \<open>shift\<close> if the length exceeds \<open>maxHistoryFrames\<close>.\<close>

definition pushHistory :: "frame list \<Rightarrow> frame \<Rightarrow> frame list" where
  "pushHistory history landmarks =
     (let pushed = history @ [landmarks]
      in if length pushed > maxHistoryFrames then tl pushed else pushed)"

text \<open>
  What one call of \<open>drawSkeleton\<close> does to the smoothing state: nothing is drawn for
  absent or empty landmarks, an exception leaves the pushed history behind, and otherwise
  the smoothed landmarks are drawn and stored in \<open>lastLandmarks\<close>.
\<close>

datatype drawn = NotDrawn | Drawn frame | Threw js_error

definition drawSkeleton :: "frame option \<Rightarrow> smoother \<Rightarrow> smoother \<times> drawn" where
  "drawSkeleton arg s =
     (case arg of
        None \<Rightarrow> (s, NotDrawn)
      | Some landmarks \<Rightarrow>
          if landmarks = [] then (s, NotDrawn)
          else
            (let history = pushHistory (landmarkHistory s) landmarks
             in case averageStep history landmarks of
                  Inl e \<Rightarrow> (\<lparr>landmarkHistory = history, lastLandmarks = lastLandmarks s\<rparr>, Threw e)
                | Inr averaged \<Rightarrow>
                    (let out = blendStep (lastLandmarks s) averaged
                     in (\<lparr>landmarkHistory = history, lastLandmarks = Some out\<rparr>, Drawn out))))"

definition freshSmoother :: smoother where
  "freshSmoother = \<lparr>landmarkHistory = [], lastLandmarks = None\<rparr>"

section \<open>Session state, countdown and frame pipeline\<close>

text \<open>
  The script's global variables, and beside them the part of the browser that the properties
  are about: the interval timers that are registered (\<open>timers\<close>, each with its id and delay in
  milliseconds; \<open>nextTimer\<close> is the id the next \<open>setInterval\<close> returns), the number of
  frames sent on the current socket whose answer has not arrived (\<open>inFlight\<close>), and how
  often \<open>exerciseCompleted\<close> ran (\<open>completions\<close>).  \<open>switching\<close> holds the part of
  \<open>switchCamera\<close> that waits behind its \<open>await\<close>s, with the value of its local
  \<open>wasTracking\<close>.  \<open>exerciseDuration\<close> is defined by the
  page, not by the script, so it is the parameter \<open>dur\<close>.  Writes to the page (texts,
  styles, the canvas) are left out.
\<close>

datatype socket = WsNone | WsConnecting | WsOpen | WsClosed

record session =
  isTracking :: bool
  countdown :: int
  countdownInterval :: "nat option"
  isInCorrectPose :: bool
  processingFrame :: bool
  stream :: bool
  smoothing :: smoother
  ws :: socket
  timers :: "(nat \<times> nat) list"
  nextTimer :: nat
  inFlight :: nat
  completions :: nat
  switching :: "bool option"

definition pageLoad :: session where
  "pageLoad =
     \<lparr>isTracking = False, countdown = 5, countdownInterval = None, isInCorrectPose = False,
      processingFrame = False, stream = False, smoothing = freshSmoother, ws = WsNone,
      timers = [], nextTimer = 1, inFlight = 0, completions = 0, switching = None\<rparr>"

text \<open>
  \<open>setInterval\<close> registers a timer under a new id; \<open>clearInterval\<close> removes the timer with
  the given id and ignores \<open>undefined\<close> and \<open>null\<close>.  Timer ids are positive, so a stored
  id is truthy in \<open>if (countdownInterval)\<close>.
\<close>

definition setInterval :: "nat \<Rightarrow> session \<Rightarrow> nat \<times> session" where
  "setInterval delay s =
     (nextTimer s, s\<lparr>timers := timers s @ [(nextTimer s, delay)], nextTimer := Suc (nextTimer s)\<rparr>)"

definition clearInterval :: "nat option \<Rightarrow> session \<Rightarrow> session" where
  "clearInterval handle s =
     (case handle of
        None \<Rightarrow> s
      | Some t \<Rightarrow> s\<lparr>timers := filter (\<lambda>(t', delay). t' \<noteq> t) (timers s)\<rparr>)"

definition startCountdown :: "int \<Rightarrow> session \<Rightarrow> session" where
  "startCountdown dur s =
     (case setInterval 1000 (s\<lparr>countdown := dur\<rparr>) of
        (t, s1) \<Rightarrow> s1\<lparr>countdownInterval := Some t\<rparr>)"

definition resetCountdown :: "int \<Rightarrow> session \<Rightarrow> session" where
  "resetCountdown dur s = (clearInterval (countdownInterval s) s)\<lparr>countdown := dur\<rparr>"

text \<open>
  \<open>stopCamera\<close> closes the socket and forgets it; a closed socket delivers no further
  message, so nothing is in flight afterwards.
\<close>

definition stopCamera :: "session \<Rightarrow> session" where
  "stopCamera s =
     (clearInterval (countdownInterval s)
        (s\<lparr>isTracking := False, processingFrame := False,
           smoothing := freshSmoother, stream := False, ws := WsNone, inFlight := 0\<rparr>))
       \<lparr>countdownInterval := None\<rparr>"

definition exerciseCompleted :: "session \<Rightarrow> session" where
  "exerciseCompleted s = stopCamera (s\<lparr>completions := Suc (completions s)\<rparr>)"

text \<open>The callback that \<open>startCountdown\<close> hands to \<open>setInterval\<close>.\<close>

definition countdownTick :: "session \<Rightarrow> session" where
  "countdownTick s =
     (let s1 = s\<lparr>countdown := countdown s - 1\<rparr>
      in if countdown s1 \<le> 0
         then exerciseCompleted (clearInterval (countdownInterval s1) s1)
         else s1)"

text \<open>
  \<open>handlePoseData\<close> returns the new state and the exception that ended it, if any: an
  exception of \<open>drawSkeleton\<close> skips the countdown handling below it.
\<close>

definition handlePoseData :: "int \<Rightarrow> evaluation \<Rightarrow> session \<Rightarrow> session \<times> js_error option" where
  "handlePoseData dur data s =
     (case data of
        Failure message \<Rightarrow> (resetCountdown dur s, None)
      | Success landmarks accuracy feedbackText color \<Rightarrow>
          (case drawSkeleton landmarks (smoothing s) of
             (sm, Threw e) \<Rightarrow> (s\<lparr>smoothing := sm\<rparr>, Some e)
           | (sm, _) \<Rightarrow>
               (let s1 = s\<lparr>smoothing := sm\<rparr>
                in if accuracy \<ge> 70 \<and> color = ''green'' then
                     (if \<not> isInCorrectPose s1
                      then (startCountdown dur (s1\<lparr>isInCorrectPose := True\<rparr>), None)
                      else (s1, None))
                   else
                     (if isInCorrectPose s1
                      then (resetCountdown dur (s1\<lparr>isInCorrectPose := False\<rparr>), None)
                      else (s1, None)))))"

text \<open>
  \<open>ws.onmessage\<close>: \<open>None\<close> is a message that \<open>JSON.parse\<close> rejects.  Both the normal path
  and the \<open>catch\<close> clear \<open>processingFrame\<close>.
\<close>

definition onmessage :: "int \<Rightarrow> evaluation option \<Rightarrow> session \<Rightarrow> session" where
  "onmessage dur msg s =
     (case msg of
        None \<Rightarrow> s\<lparr>processingFrame := False\<rparr>
      | Some data \<Rightarrow> (fst (handlePoseData dur data s))\<lparr>processingFrame := False\<rparr>)"

text \<open>
  \<open>processFrame\<close>: \<open>videoReady\<close> says whether the video has enough data, \<open>captureOk\<close>
  whether capturing and sending went through without an exception.  Rescheduling itself
  is the environment's part: the function may be called again at any time.
\<close>

definition processFrame :: "bool \<Rightarrow> bool \<Rightarrow> session \<Rightarrow> session" where
  "processFrame videoReady captureOk s =
     (if \<not> isTracking s then s
      else if \<not> videoReady then s
      else if processingFrame s then s
      else if ws s \<noteq> WsOpen then s
      else if captureOk then s\<lparr>processingFrame := True, inFlight := Suc (inFlight s)\<rparr>
      else s\<lparr>processingFrame := False\<rparr>)"

definition connectWebSocket :: "session \<Rightarrow> session" where
  "connectWebSocket s = s\<lparr>ws := WsConnecting, inFlight := 0\<rparr>"

definition onopen :: "bool \<Rightarrow> bool \<Rightarrow> session \<Rightarrow> session" where
  "onopen videoReady captureOk s =
     processFrame videoReady captureOk (s\<lparr>ws := WsOpen, isTracking := True, processingFrame := False\<rparr>)"

text \<open>
  \<open>switchCamera\<close> in two parts.  The part before the first \<open>await\<close> stops the stream, drops
  the socket, clears \<open>isTracking\<close> and remembers \<open>wasTracking\<close>.  The part behind the
  \<open>await\<close>s runs later, whatever happened in between: if one of the two attempts to open a
  camera succeeded (\<open>cameraOk\<close>) the stream is set again and, when \<open>wasTracking\<close>,
  \<open>connectWebSocket\<close> is called; if both failed nothing else changes.  The button is
  disabled and \<open>stream\<close> is null while the second part is pending, so at most one is.
\<close>

definition switchCamera :: "session \<Rightarrow> session" where
  "switchCamera s =
     (if \<not> stream s then s
      else s\<lparr>stream := False, ws := WsNone, inFlight := 0, isTracking := False,
             switching := Some (isTracking s)\<rparr>)"

definition switchCameraResume :: "bool \<Rightarrow> session \<Rightarrow> session" where
  "switchCameraResume cameraOk s =
     (case switching s of
        None \<Rightarrow> s
      | Some wasTracking \<Rightarrow>
          if cameraOk then
            (if wasTracking then connectWebSocket (s\<lparr>stream := True, switching := None\<rparr>)
             else s\<lparr>stream := True, switching := None\<rparr>)
          else s\<lparr>switching := None\<rparr>)"

text \<open>
  The events of one session, from \<open>connectWebSocket\<close> on; a camera switch closes the
  socket and its second part opens the next one within the same session.  The browser
  runs each handler to its end before the next.  What the environment grants:
  the socket opens once; the server answers each frame with one message, so a message
  arrives only while a frame is in flight on the open socket; a timer fires only while it
  is registered.  \<open>OnError\<close> also stands for the \<open>close\<close> event of a socket that the script
  has already dropped: both only clear \<open>isTracking\<close>.
\<close>

datatype event =
  OnOpen bool bool
| ProcessFrame bool bool
| OnMessage "evaluation option"
| OnError
| OnClose
| Tick nat
| StopCamera
| SwitchCamera
| SwitchCameraResume bool

definition step :: "int \<Rightarrow> event \<Rightarrow> session \<Rightarrow> session" where
  "step dur e s =
     (case e of
        OnOpen videoReady captureOk \<Rightarrow>
          if ws s = WsConnecting then onopen videoReady captureOk s else s
      | ProcessFrame videoReady captureOk \<Rightarrow> processFrame videoReady captureOk s
      | OnMessage msg \<Rightarrow>
          if ws s = WsOpen \<and> 0 < inFlight s
          then onmessage dur msg (s\<lparr>inFlight := inFlight s - 1\<rparr>)
          else s
      | OnError \<Rightarrow> s\<lparr>isTracking := False\<rparr>
      | OnClose \<Rightarrow>
          if ws s = WsConnecting \<or> ws s = WsOpen
          then s\<lparr>ws := WsClosed, inFlight := 0, isTracking := False\<rparr>
          else s
      | Tick t \<Rightarrow> if t \<in> fst ` set (timers s) then countdownTick s else s
      | StopCamera \<Rightarrow> stopCamera s
      | SwitchCamera \<Rightarrow> switchCamera s
      | SwitchCameraResume cameraOk \<Rightarrow> switchCameraResume cameraOk s)"

fun run :: "int \<Rightarrow> event list \<Rightarrow> session \<Rightarrow> session" where
  "run dur [] s = s"
| "run dur (e # es) s = run dur es (step dur e s)"

subsection \<open>The first generation of the handler\<close>

text \<open>
  The first copy of the script in the same file smooths against \<open>lastLandmarks\<close> only,
  without the visibility test, and starts the countdown from accuracy 90.
\<close>

definition drawSkeleton_legacy :: "frame option \<Rightarrow> smoother \<Rightarrow> smoother" where
  "drawSkeleton_legacy arg s =
     (case arg of
        None \<Rightarrow> s
      | Some landmarks \<Rightarrow>
          if landmarks = [] then s
          else
            (let out =
               (case lastLandmarks s of
                  None \<Rightarrow> landmarks
                | Some previous \<Rightarrow>
                    if length previous = length landmarks then
                      map (\<lambda>(landmark, prev).
                             Landmark (lm_x prev * smoothingFactor + lm_x landmark * (1 - smoothingFactor))
                                      (lm_y prev * smoothingFactor + lm_y landmark * (1 - smoothingFactor))
                                      (lm_z landmark) (lm_vis landmark))
                          (zip landmarks previous)
                    else landmarks)
             in s\<lparr>lastLandmarks := Some out\<rparr>))"

definition handlePoseData_legacy :: "int \<Rightarrow> evaluation \<Rightarrow> session \<Rightarrow> session" where
  "handlePoseData_legacy dur data s =
     (case data of
        Failure message \<Rightarrow> resetCountdown dur s
      | Success landmarks accuracy feedbackText color \<Rightarrow>
          (let s1 = s\<lparr>smoothing := drawSkeleton_legacy landmarks (smoothing s)\<rparr>
           in if accuracy \<ge> 90 \<and> color = ''green'' then
                (if \<not> isInCorrectPose s1
                 then startCountdown dur (s1\<lparr>isInCorrectPose := True\<rparr>)
                 else s1)
              else
                (if isInCorrectPose s1
                 then resetCountdown dur (s1\<lparr>isInCorrectPose := False\<rparr>)
                 else s1)))"

section \<open>Notions used by the properties\<close>

subsection \<open>The smoother as the specification words it\<close>

text \<open>
  The buffer keeps the newest \<open>maxHistoryFrames\<close> frames.  Position \<open>i\<close> of a buffer of
  \<open>H\<close> frames has the recency weight \<open>(i + 1) / H\<close>; the weights are normalised to sum
  to one; the average of one coordinate is the sum of its buffered values under these
  weights.  The exponential step is \<open>prev * 0.5 + new * 0.5\<close> for a landmark whose
  visibility exceeds 0.5 now and in the previous smoothed frame.
\<close>

definition specBuffer :: "frame list \<Rightarrow> frame \<Rightarrow> frame list" where
  "specBuffer history landmarks =
     drop (length (history @ [landmarks]) - 3) (history @ [landmarks])"

definition specWeight :: "nat \<Rightarrow> nat \<Rightarrow> real" where
  "specWeight H i = real (i + 1) / real H"

definition specNormalizedWeight :: "nat \<Rightarrow> nat \<Rightarrow> real" where
  "specNormalizedWeight H i = specWeight H i / (\<Sum>k<H. specWeight H k)"

definition specMean :: "real list \<Rightarrow> real" where
  "specMean xs = (\<Sum>i<length xs. specNormalizedWeight (length xs) i * xs ! i)"

definition specSmoothed :: "frame list \<Rightarrow> frame option \<Rightarrow> frame \<Rightarrow> nat \<Rightarrow> landmark" where
  "specSmoothed buffer lastOpt landmarks i =
     (let newX = specMean (map (\<lambda>frame. lm_x (frame ! i)) buffer);
          newY = specMean (map (\<lambda>frame. lm_y (frame ! i)) buffer);
          current = landmarks ! i;
          unblended = Landmark newX newY (lm_z current) (lm_vis current)
      in case lastOpt of
           None \<Rightarrow> unblended
         | Some previous \<Rightarrow>
             if lm_vis current > 0.5 \<and> lm_vis (previous ! i) > 0.5
             then Landmark (lm_x (previous ! i) * 0.5 + newX * 0.5)
                           (lm_y (previous ! i) * 0.5 + newY * 0.5)
                           (lm_z current) (lm_vis current)
             else unblended)"

subsection \<open>Well-formed smoothing states and repeated frames\<close>

text \<open>
  \<open>uniform n\<close>: every buffered frame and the previous output carry \<open>n\<close> landmarks, and the
  buffer is within its capacity.  \<open>framesCover\<close>: no buffered frame is shorter than the
  new one, so that the weighted average reads no missing entry.
\<close>

definition uniform :: "nat \<Rightarrow> smoother \<Rightarrow> bool" where
  "uniform n s \<longleftrightarrow>
     length (landmarkHistory s) \<le> maxHistoryFrames \<and>
     (\<forall>frame \<in> set (landmarkHistory s). length frame = n) \<and>
     (case lastLandmarks s of None \<Rightarrow> True | Some previous \<Rightarrow> length previous = n)"

definition framesCover :: "frame list \<Rightarrow> frame option \<Rightarrow> bool" where
  "framesCover history arg \<longleftrightarrow>
     (case arg of
        None \<Rightarrow> True
      | Some landmarks \<Rightarrow> \<forall>frame \<in> set history. length landmarks \<le> length frame)"

definition feed :: "frame \<Rightarrow> smoother \<Rightarrow> smoother" where
  "feed landmarks s = fst (drawSkeleton (Some landmarks) s)"

fun feeds :: "nat \<Rightarrow> frame \<Rightarrow> smoother \<Rightarrow> smoother" where
  "feeds 0 landmarks s = s"
| "feeds (Suc m) landmarks s = feed landmarks (feeds m landmarks s)"

definition emitted :: "smoother \<Rightarrow> frame" where
  "emitted s = (case lastLandmarks s of None \<Rightarrow> [] | Some out \<Rightarrow> out)"

definition originFrame :: frame where
  "originFrame = [Landmark 0 0 0 1]"

definition unitFrame :: frame where
  "unitFrame = [Landmark 1 1 0 1]"

subsection \<open>Countdown states and session invariants\<close>

text \<open>
  A session holds when the pose flag is set and the countdown timer is the one registered
  timer, with a delay of one second.  \<open>timerInv\<close> holds in every state the events reach.
\<close>

definition Holding :: "session \<Rightarrow> bool" where
  "Holding s \<longleftrightarrow>
     isInCorrectPose s \<and>
     (case timers s of
        [(t, delay)] \<Rightarrow> delay = 1000 \<and> countdownInterval s = Some t
      | _ \<Rightarrow> False)"

definition timerInv :: "session \<Rightarrow> bool" where
  "timerInv s \<longleftrightarrow> timers s = [] \<or> Holding s"

definition qualifies :: "evaluation \<Rightarrow> bool" where
  "qualifies data \<longleftrightarrow>
     (case data of
        Failure message \<Rightarrow> False
      | Success landmarks accuracy feedbackText color \<Rightarrow> accuracy \<ge> 70 \<and> color = ''green'')"

text \<open>The events that leave a running countdown to its timer.\<close>

definition keepsHold :: "event \<Rightarrow> bool" where
  "keepsHold e \<longleftrightarrow>
     (case e of
        StopCamera \<Rightarrow> False
      | OnMessage (Some data) \<Rightarrow> qualifies data
      | _ \<Rightarrow> True)"

definition tickCount :: "nat \<Rightarrow> event list \<Rightarrow> nat" where
  "tickCount t es = length (filter (\<lambda>e. e = Tick t) es)"

definition pipelineInv :: "session \<Rightarrow> bool" where
  "pipelineInv s \<longleftrightarrow>
     inFlight s \<le> 1 \<and> (inFlight s = 1 \<longrightarrow> processingFrame s \<and> ws s = WsOpen)"

definition stopped :: "session \<Rightarrow> bool" where
  "stopped s \<longleftrightarrow>
     \<not> isTracking s \<and> \<not> processingFrame s \<and> \<not> stream s \<and> smoothing s = freshSmoother \<and>
     ws s = WsNone \<and> inFlight s = 0 \<and> timers s = [] \<and> countdownInterval s = None \<and>
     switching s = None"

text \<open>
  For the examples: a session of five seconds started from the loaded page, a green
  evaluation, the session after the first frame was answered green and two seconds have
  passed, and the same session two seconds later; a yellow evaluation, a green one with
  two landmarks instead of one, and the session after the first frame was answered yellow
  and the second frame was sent.
\<close>

definition sessionStart :: session where
  "sessionStart = connectWebSocket (pageLoad\<lparr>stream := True\<rparr>)"

definition greenFrame :: evaluation where
  "greenFrame = Success (Some unitFrame) 80 [] ''green''"

definition holdingExample :: session where
  "holdingExample =
     run 5 [OnOpen True True, OnMessage (Some greenFrame), Tick 1, Tick 1] sessionStart"

definition lastSecondExample :: session where
  "lastSecondExample = run 5 [Tick 1, Tick 1] holdingExample"

definition yellowFrame :: evaluation where
  "yellowFrame = Success (Some unitFrame) 60 [] ''yellow''"

definition longGreenFrame :: evaluation where
  "longGreenFrame = Success (Some [Landmark 1 1 0 1, Landmark 1 1 0 1]) 80 [] ''green''"

definition idleExample :: session where
  "idleExample =
     run 5 [OnOpen True True, OnMessage (Some yellowFrame), ProcessFrame True True] sessionStart"

text \<open>
  Three stretches of events: the camera switch is begun and the countdown's timer fires;
  the second part of the switch reconnects, a frame is answered yellow and the next one
  green; the new timer fires five times.
\<close>

definition switchAndComplete :: "event list" where
  "switchAndComplete = [SwitchCamera, Tick 1]"

definition reconnectAndHold :: "event list" where
  "reconnectAndHold =
     [SwitchCameraResume True, OnOpen True True, OnMessage (Some yellowFrame),
      ProcessFrame True True, OnMessage (Some greenFrame)]"

definition fiveSeconds :: "event list" where
  "fiveSeconds = [Tick 2, Tick 2, Tick 2, Tick 2, Tick 2]"

subsection \<open>The colour band\<close>

text \<open>
  Modelled from the spec: the accuracy aggregator runs on the server, whose code is not
  among the sources; the script only receives its result.  The specification clamps the
  sum of the criterion points to \<open>[0, 100]\<close>.
\<close>

definition clampAccuracy :: "real \<Rightarrow> real" where
  "clampAccuracy points = max 0 (min 100 points)"

text \<open>
  Modelled from the spec: the colour band of an accuracy, which the server computes and
  sends as \<open>color\<close>.  The specification maps \<open>[0, 50)\<close> to red, \<open>[50, 70)\<close> to yellow and
  \<open>[70, 100]\<close> to green, each band closed at its lower bound.
\<close>

definition colorBand :: "real \<Rightarrow> string" where
  "colorBand a = (if a < 50 then ''red'' else if a < 70 then ''yellow'' else ''green'')"

section \<open>Shape of the smoother's result\<close>

lemma mapIndexed_Inr:
  "mapIndexed f k xs = Inr ys \<Longrightarrow>
     length ys = length xs \<and> (\<forall>j<length xs. f (xs ! j) (k + j) = Inr (ys ! j))"
proof (induction xs arbitrary: k ys)
  case Nil
  then show ?case by simp
next
  case (Cons x xs)
  from Cons.prems obtain y ys' where fx: "f x k = Inr y"
    and rest: "mapIndexed f (Suc k) xs = Inr ys'" and ys: "ys = y # ys'"
    by (auto split: sum.splits)
  from Cons.IH [OF rest] have len: "length ys' = length xs"
    and nth: "\<And>j. j < length xs \<Longrightarrow> f (xs ! j) (Suc k + j) = Inr (ys' ! j)"
    by simp_all
  show ?case
  proof (intro conjI allI impI)
    show "length ys = length (x # xs)" using len ys by simp
  next
    fix j assume "j < length (x # xs)"
    then show "f ((x # xs) ! j) (k + j) = Inr (ys ! j)"
      using fx nth ys by (cases j) simp_all
  qed
qed

lemma mapIndexed_total:
  "(\<And>j. j < length xs \<Longrightarrow> \<exists>y. f (xs ! j) (k + j) = Inr y) \<Longrightarrow> \<exists>ys. mapIndexed f k xs = Inr ys"
proof (induction xs arbitrary: k)
  case Nil
  then show ?case by simp
next
  case (Cons x xs)
  from Cons.prems [of 0] obtain y where fx: "f x k = Inr y" by auto
  have "\<exists>ys. mapIndexed f (Suc k) xs = Inr ys"
  proof (rule Cons.IH)
    fix j assume "j < length xs"
    then show "\<exists>y. f (xs ! j) (Suc k + j) = Inr y"
      using Cons.prems [of "Suc j"] by simp
  qed
  then show ?case using fx by auto
qed

lemma accumulate_Inr:
  "(\<And>frame. frame \<in> set frames \<Longrightarrow> i < length frame) \<Longrightarrow>
   accumulate H i k frames (wx, wy, tw) =
     Inr (wx + (\<Sum>j<length frames. lm_x (frames ! j ! i) * (real (k + j + 1) / real H)),
          wy + (\<Sum>j<length frames. lm_y (frames ! j ! i) * (real (k + j + 1) / real H)),
          tw + (\<Sum>j<length frames. real (k + j + 1) / real H))"
proof (induction frames arbitrary: k wx wy tw)
  case Nil
  then show ?case by simp
next
  case (Cons frame rest)
  have here: "i < length frame" using Cons.prems by simp
  have later: "\<And>g. g \<in> set rest \<Longrightarrow> i < length g" using Cons.prems by simp
  show ?case
    using here Cons.IH [OF later]
    by (simp add: Let_def sum.lessThan_Suc_shift add.assoc del: sum.lessThan_Suc)
qed

lemma weightedLandmark_z_vis:
  "weightedLandmark history landmark i = Inr l \<Longrightarrow>
     lm_z l = lm_z landmark \<and> lm_vis l = lm_vis landmark"
  by (auto simp: weightedLandmark_def split: sum.splits prod.splits)

lemma blendLandmark_z_vis:
  "lm_z (blendLandmark prev l) = lm_z l \<and> lm_vis (blendLandmark prev l) = lm_vis l"
  by (simp add: blendLandmark_def)

lemma blend_nth:
  "length previous = length ls \<Longrightarrow> i < length ls \<Longrightarrow>
   blend previous ls ! i = blendLandmark (previous ! i) (ls ! i)"
  by (simp add: blend_def)

lemma blend_length: "length previous = length ls \<Longrightarrow> length (blend previous ls) = length ls"
  by (simp add: blend_def)

lemma averageStep_shape:
  assumes "averageStep history landmarks = Inr averaged"
  shows "length averaged = length landmarks"
    and "i < length landmarks \<Longrightarrow> lm_z (averaged ! i) = lm_z (landmarks ! i)"
    and "i < length landmarks \<Longrightarrow> lm_vis (averaged ! i) = lm_vis (landmarks ! i)"
proof -
  show "length averaged = length landmarks"
    using assms mapIndexed_Inr [of "weightedLandmark history" 0 landmarks averaged]
    by (auto simp: averageStep_def weightedAverage_def split: if_splits)
  {
    assume i: "i < length landmarks"
    have "lm_z (averaged ! i) = lm_z (landmarks ! i) \<and> lm_vis (averaged ! i) = lm_vis (landmarks ! i)"
    proof (cases "1 < length history")
      case True
      then have "weightedLandmark history (landmarks ! i) (0 + i) = Inr (averaged ! i)"
        using assms i mapIndexed_Inr [of "weightedLandmark history" 0 landmarks averaged]
        by (simp add: averageStep_def weightedAverage_def)
      then show ?thesis by (rule weightedLandmark_z_vis)
    next
      case False
      then show ?thesis using assms by (simp add: averageStep_def)
    qed
  }
  then show "i < length landmarks \<Longrightarrow> lm_z (averaged ! i) = lm_z (landmarks ! i)"
    and "i < length landmarks \<Longrightarrow> lm_vis (averaged ! i) = lm_vis (landmarks ! i)"
    by simp_all
qed

lemma blendStep_shape:
  shows "length (blendStep lastOpt averaged) = length averaged"
    and "i < length averaged \<Longrightarrow> lm_z (blendStep lastOpt averaged ! i) = lm_z (averaged ! i)"
    and "i < length averaged \<Longrightarrow> lm_vis (blendStep lastOpt averaged ! i) = lm_vis (averaged ! i)"
  by (auto simp: blendStep_def blend_length blend_nth blendLandmark_z_vis split: option.splits)

lemma drawSkeleton_Drawn:
  assumes "drawSkeleton (Some landmarks) s = (s', Drawn out)"
  shows "\<exists>averaged. landmarks \<noteq> [] \<and>
           averageStep (pushHistory (landmarkHistory s) landmarks) landmarks = Inr averaged \<and>
           out = blendStep (lastLandmarks s) averaged \<and>
           s' = \<lparr>landmarkHistory = pushHistory (landmarkHistory s) landmarks,
                 lastLandmarks = Some out\<rparr>"
  using assms
  by (auto simp: drawSkeleton_def Let_def split: if_splits sum.splits)

lemma set_pushHistory: "set (pushHistory history landmarks) \<subseteq> insert landmarks (set history)"
  by (cases history) (auto simp: pushHistory_def Let_def dest: list.set_sel(2))

lemma weightedLandmark_total:
  assumes "\<And>frame. frame \<in> set history \<Longrightarrow> i < length frame"
  shows "\<exists>l. weightedLandmark history landmark i = Inr l"
  using accumulate_Inr [of history i "length history" 0 0 0 0, OF assms]
  by (simp add: weightedLandmark_def)

lemma averageStep_total:
  assumes "\<And>frame. frame \<in> set history \<Longrightarrow> length landmarks \<le> length frame"
  shows "\<exists>averaged. averageStep history landmarks = Inr averaged"
proof (cases "1 < length history")
  case True
  have "\<exists>ys. mapIndexed (weightedLandmark history) 0 landmarks = Inr ys"
  proof (rule mapIndexed_total)
    fix j assume j: "j < length landmarks"
    have "\<And>frame. frame \<in> set history \<Longrightarrow> j < length frame"
      using assms j by fastforce
    then show "\<exists>y. weightedLandmark history (landmarks ! j) (0 + j) = Inr y"
      using weightedLandmark_total [of history j] by simp
  qed
  then show ?thesis using True by (simp add: averageStep_def weightedAverage_def)
next
  case False
  then show ?thesis by (simp add: averageStep_def)
qed

lemma drawSkeleton_draws:
  assumes "landmarks \<noteq> []" and "framesCover (landmarkHistory s) (Some landmarks)"
  shows "\<exists>averaged. averageStep (pushHistory (landmarkHistory s) landmarks) landmarks = Inr averaged \<and>
           drawSkeleton (Some landmarks) s =
             (\<lparr>landmarkHistory = pushHistory (landmarkHistory s) landmarks,
               lastLandmarks = Some (blendStep (lastLandmarks s) averaged)\<rparr>,
              Drawn (blendStep (lastLandmarks s) averaged))"
proof -
  have "\<And>frame. frame \<in> set (pushHistory (landmarkHistory s) landmarks)
          \<Longrightarrow> length landmarks \<le> length frame"
    using assms(2) set_pushHistory [of "landmarkHistory s" landmarks]
    by (auto simp: framesCover_def)
  then obtain averaged where
    "averageStep (pushHistory (landmarkHistory s) landmarks) landmarks = Inr averaged"
    using averageStep_total by blast
  then show ?thesis using assms(1) by (simp add: drawSkeleton_def Let_def)
qed

lemma first_frame_passes_unchanged:
  "landmarks \<noteq> [] \<Longrightarrow>
   drawSkeleton (Some landmarks) freshSmoother =
     (\<lparr>landmarkHistory = [landmarks], lastLandmarks = Some landmarks\<rparr>, Drawn landmarks)"
  by (simp add: drawSkeleton_def freshSmoother_def pushHistory_def maxHistoryFrames_def
      averageStep_def blendStep_def Let_def)

text \<open>An empty history goes with no previous output, from the fresh state on.\<close>

lemma empty_history_has_no_previous:
  assumes "landmarkHistory s = [] \<longrightarrow> lastLandmarks s = None"
  shows "landmarkHistory (fst (drawSkeleton arg s)) = []
           \<longrightarrow> lastLandmarks (fst (drawSkeleton arg s)) = None"
proof (cases arg)
  case None
  then show ?thesis using assms by (simp add: drawSkeleton_def)
next
  case (Some landmarks)
  have "pushHistory (landmarkHistory s) landmarks \<noteq> []"
    by (cases "landmarkHistory s") (simp_all add: pushHistory_def maxHistoryFrames_def Let_def)
  then show ?thesis
    using Some assms by (simp add: drawSkeleton_def Let_def split: sum.splits)
qed

lemma drawSkeleton_keeps_z_vis:
  "(drawSkeleton (Some landmarks) s = (s', Drawn out) \<longrightarrow>
      lastLandmarks s' = Some out \<and> length out = length landmarks \<and>
      (\<forall>i<length landmarks.
         lm_z (out ! i) = lm_z (landmarks ! i) \<and> lm_vis (out ! i) = lm_vis (landmarks ! i)))
   \<and> (landmarks \<noteq> [] \<and> framesCover (landmarkHistory s) (Some landmarks) \<longrightarrow>
        (\<exists>out. snd (drawSkeleton (Some landmarks) s) = Drawn out))"
proof (intro conjI impI)
  assume d: "drawSkeleton (Some landmarks) s = (s', Drawn out)"
  from drawSkeleton_Drawn [OF d] obtain averaged where
    av: "averageStep (pushHistory (landmarkHistory s) landmarks) landmarks = Inr averaged"
    and out: "out = blendStep (lastLandmarks s) averaged"
    and s': "s' = \<lparr>landmarkHistory = pushHistory (landmarkHistory s) landmarks,
                   lastLandmarks = Some out\<rparr>"
    by blast
  show "lastLandmarks s' = Some out" using s' by simp
  show "length out = length landmarks"
    using out averageStep_shape(1) [OF av] blendStep_shape(1) by simp
  show "\<forall>i<length landmarks.
         lm_z (out ! i) = lm_z (landmarks ! i) \<and> lm_vis (out ! i) = lm_vis (landmarks ! i)"
    using out averageStep_shape [OF av] blendStep_shape(2,3) [of _ averaged "lastLandmarks s"]
    by simp
next
  assume "landmarks \<noteq> [] \<and> framesCover (landmarkHistory s) (Some landmarks)"
  then show "\<exists>out. snd (drawSkeleton (Some landmarks) s) = Drawn out"
    using drawSkeleton_draws [of landmarks s] by auto
qed

text \<open>
  C10.  Smoothing changes only \<open>x\<close> and \<open>y\<close>: whenever \<open>drawSkeleton\<close> draws, the landmarks
  it draws and stores are as many as the raw ones, and each has the \<open>z\<close> (index 2) and the
  visibility (index 3) of the raw landmark at its index, through both smoothing steps.
  It does draw whenever the raw frame is not empty and no buffered frame is shorter.
\<close>

theorem smoothing_keeps_z_and_visibility:
  "(drawSkeleton (Some landmarks) s = (s', Drawn out) \<longrightarrow>
      lastLandmarks s' = Some out \<and> length out = length landmarks \<and>
      (\<forall>i<length landmarks.
         lm_z (out ! i) = lm_z (landmarks ! i) \<and> lm_vis (out ! i) = lm_vis (landmarks ! i)))
   \<and> (landmarks \<noteq> [] \<and> framesCover (landmarkHistory s) (Some landmarks) \<longrightarrow>
        (\<exists>out. snd (drawSkeleton (Some landmarks) s) = Drawn out))"
  by (rule drawSkeleton_keeps_z_vis)

theorem smoothing_keeps_z_and_visibility_witness:
  "drawSkeleton (Some [Landmark 1 1 7 (1/4)])
       \<lparr>landmarkHistory = [[Landmark 0 0 2 1]], lastLandmarks = Some [Landmark 0 0 2 1]\<rparr>
     = (\<lparr>landmarkHistory = [[Landmark 0 0 2 1], [Landmark 1 1 7 (1/4)]],
         lastLandmarks = Some [Landmark (2/3) (2/3) 7 (1/4)]\<rparr>,
        Drawn [Landmark (2/3) (2/3) 7 (1/4)])
   \<and> lm_z ([Landmark (2/3) (2/3) 7 (1/4)] ! 0) = lm_z ([Landmark 1 1 7 (1/4)] ! 0)
   \<and> lm_vis ([Landmark (2/3) (2/3) 7 (1/4)] ! 0) = lm_vis ([Landmark 1 1 7 (1/4)] ! 0)"
proof -
  have d: "drawSkeleton (Some [Landmark 1 1 7 (1/4)])
       \<lparr>landmarkHistory = [[Landmark 0 0 2 1]], lastLandmarks = Some [Landmark 0 0 2 1]\<rparr>
     = (\<lparr>landmarkHistory = [[Landmark 0 0 2 1], [Landmark 1 1 7 (1/4)]],
         lastLandmarks = Some [Landmark (2/3) (2/3) 7 (1/4)]\<rparr>,
        Drawn [Landmark (2/3) (2/3) 7 (1/4)])"
    by (simp add: drawSkeleton_def pushHistory_def maxHistoryFrames_def averageStep_def
        weightedAverage_def weightedLandmark_def blendStep_def blend_def blendLandmark_def
        smoothingFactor_def Let_def)
  show ?thesis
    using d smoothing_keeps_z_and_visibility
      [of "[Landmark 1 1 7 (1/4)]"
          "\<lparr>landmarkHistory = [[Landmark 0 0 2 1]], lastLandmarks = Some [Landmark 0 0 2 1]\<rparr>"
          "\<lparr>landmarkHistory = [[Landmark 0 0 2 1], [Landmark 1 1 7 (1/4)]],
            lastLandmarks = Some [Landmark (2/3) (2/3) 7 (1/4)]\<rparr>"
          "[Landmark (2/3) (2/3) 7 (1/4)]"]
    by simp
qed

text \<open>
  C7, at a frame whose landmark count differs from the buffered ones.  A frame of one
  landmark after frames of two is still averaged with the buffered frames and only the
  exponential step is skipped: the landmark \<open>(1, 1)\<close> is drawn at \<open>(2/3, 2/3)\<close>.  A frame
  of two landmarks after a frame of one ends \<open>drawSkeleton\<close> with a TypeError, the frame
  already pushed into the history.
\<close>

theorem count_mismatch_is_still_averaged:
  "drawSkeleton (Some [Landmark 1 1 0 1])
       \<lparr>landmarkHistory = [[Landmark 0 0 0 1, Landmark 0 0 0 1]],
        lastLandmarks = Some [Landmark 0 0 0 1, Landmark 0 0 0 1]\<rparr>
     = (\<lparr>landmarkHistory = [[Landmark 0 0 0 1, Landmark 0 0 0 1], [Landmark 1 1 0 1]],
         lastLandmarks = Some [Landmark (2/3) (2/3) 0 1]\<rparr>,
        Drawn [Landmark (2/3) (2/3) 0 1])
   \<and> drawSkeleton (Some [Landmark 1 1 0 1, Landmark 1 1 0 1])
       \<lparr>landmarkHistory = [[Landmark 0 0 0 1]], lastLandmarks = Some [Landmark 0 0 0 1]\<rparr>
     = (\<lparr>landmarkHistory = [[Landmark 0 0 0 1], [Landmark 1 1 0 1, Landmark 1 1 0 1]],
         lastLandmarks = Some [Landmark 0 0 0 1]\<rparr>,
        Threw TypeError)"
  by (simp add: drawSkeleton_def pushHistory_def maxHistoryFrames_def averageStep_def
      weightedAverage_def weightedLandmark_def blendStep_def Let_def)

section \<open>The smoother against its specification\<close>

lemma pushHistory_specBuffer:
  assumes "length history \<le> maxHistoryFrames"
  shows "pushHistory history landmarks = specBuffer history landmarks"
proof (cases "length history = 3")
  case True
  then have "history \<noteq> []" by auto
  then have "tl (history @ [landmarks]) = tl history @ [landmarks]" by simp
  then show ?thesis
    using True by (simp add: pushHistory_def specBuffer_def maxHistoryFrames_def Let_def drop_Suc)
next
  case False
  then have "length history \<le> 2" using assms by (simp add: maxHistoryFrames_def)
  then show ?thesis
    by (simp add: pushHistory_def specBuffer_def maxHistoryFrames_def Let_def)
qed

lemma length_specBuffer: "length (specBuffer history landmarks) \<le> 3"
  by (simp add: specBuffer_def)

lemma specBuffer_nonempty: "specBuffer history landmarks \<noteq> []"
  by (simp add: specBuffer_def)

lemma set_specBuffer: "set (specBuffer history landmarks) \<subseteq> insert landmarks (set history)"
  using set_drop_subset [of "length (history @ [landmarks]) - 3" "history @ [landmarks]"]
  by (auto simp: specBuffer_def)

lemma weight_sum_pos: "0 < H \<Longrightarrow> 0 < (\<Sum>k<H. specWeight H k)"
  by (rule sum_pos) (auto simp: specWeight_def)

lemma specNormalizedWeight_sum: "0 < H \<Longrightarrow> (\<Sum>i<H. specNormalizedWeight H i) = 1"
  using weight_sum_pos [of H]
  by (simp add: specNormalizedWeight_def sum_divide_distrib [symmetric])

text \<open>
  The normalised weights do not depend on the denominator of the raw weights: dividing
  \<open>i + 1\<close> by the capacity or by the current length of the buffer gives the same average.
\<close>

lemma normalized_weight_any_denominator:
  assumes "0 < D" and "0 < H"
  shows "(real (i + 1) / real D) / (\<Sum>k<H. real (k + 1) / real D) = specNormalizedWeight H i"
proof -
  have pos: "0 < (\<Sum>k<H. real (k + 1))"
    using assms(2) by (intro sum_pos) auto
  have "(real (i + 1) / real D) / (\<Sum>k<H. real (k + 1) / real D)
          = (real (i + 1) / real D) / ((\<Sum>k<H. real (k + 1)) / real D)"
    by (simp add: sum_divide_distrib)
  also have "\<dots> = real (i + 1) / (\<Sum>k<H. real (k + 1))"
    using assms(1) by simp
  finally have left: "(real (i + 1) / real D) / (\<Sum>k<H. real (k + 1) / real D)
                        = real (i + 1) / (\<Sum>k<H. real (k + 1))" .
  have "specNormalizedWeight H i
          = (real (i + 1) / real H) / ((\<Sum>k<H. real (k + 1)) / real H)"
    by (simp add: specNormalizedWeight_def specWeight_def sum_divide_distrib)
  also have "\<dots> = real (i + 1) / (\<Sum>k<H. real (k + 1))"
    using assms(2) by simp
  finally show ?thesis using left by simp
qed

lemma specMean_single: "specMean [x] = x"
  by (simp add: specMean_def specNormalizedWeight_def specWeight_def)

lemma weighted_quotient:
  assumes "0 < length frames"
  shows "(\<Sum>j<length frames. g (frames ! j) * (real (0 + j + 1) / real (length frames)))
           / (\<Sum>j<length frames. real (0 + j + 1) / real (length frames))
         = specMean (map g frames)"
proof -
  let ?H = "length frames"
  let ?tw = "\<Sum>k<?H. specWeight ?H k"
  have "(\<Sum>j<?H. g (frames ! j) * specWeight ?H j) / ?tw
        = (\<Sum>j<?H. g (frames ! j) * specWeight ?H j / ?tw)"
    by (rule sum_divide_distrib)
  also have "\<dots> = (\<Sum>j<?H. specNormalizedWeight ?H j * map g frames ! j)"
    by (rule sum.cong) (simp_all add: specNormalizedWeight_def)
  finally show ?thesis
    by (simp add: specMean_def specWeight_def)
qed

lemma weightedLandmark_mean:
  assumes "history \<noteq> []" and "\<And>frame. frame \<in> set history \<Longrightarrow> i < length frame"
  shows "weightedLandmark history landmark i =
           Inr (Landmark (specMean (map (\<lambda>frame. lm_x (frame ! i)) history))
                         (specMean (map (\<lambda>frame. lm_y (frame ! i)) history))
                         (lm_z landmark) (lm_vis landmark))"
proof -
  have pos: "0 < length history" using assms(1) by simp
  show ?thesis
    using accumulate_Inr [of history i "length history" 0 0 0 0, OF assms(2)]
      weighted_quotient [OF pos, of "\<lambda>frame. lm_x (frame ! i)"]
      weighted_quotient [OF pos, of "\<lambda>frame. lm_y (frame ! i)"]
    by (simp add: weightedLandmark_def)
qed

lemma averageStep_mean:
  assumes "landmarks \<in> set history" and "length history = 1 \<longrightarrow> history = [landmarks]"
    and "\<And>frame. frame \<in> set history \<Longrightarrow> length frame = length landmarks"
  shows "\<exists>averaged. averageStep history landmarks = Inr averaged \<and>
           length averaged = length landmarks \<and>
           (\<forall>i<length landmarks. averaged ! i =
              Landmark (specMean (map (\<lambda>frame. lm_x (frame ! i)) history))
                       (specMean (map (\<lambda>frame. lm_y (frame ! i)) history))
                       (lm_z (landmarks ! i)) (lm_vis (landmarks ! i)))"
proof (cases "1 < length history")
  case True
  have "\<And>frame. frame \<in> set history \<Longrightarrow> length landmarks \<le> length frame"
    using assms(3) by simp
  then obtain averaged where av: "averageStep history landmarks = Inr averaged"
    using averageStep_total by blast
  then have m: "mapIndexed (weightedLandmark history) 0 landmarks = Inr averaged"
    using True by (simp add: averageStep_def weightedAverage_def)
  have ne: "history \<noteq> []" using True by auto
  have "\<forall>i<length landmarks. averaged ! i =
              Landmark (specMean (map (\<lambda>frame. lm_x (frame ! i)) history))
                       (specMean (map (\<lambda>frame. lm_y (frame ! i)) history))
                       (lm_z (landmarks ! i)) (lm_vis (landmarks ! i))"
  proof (intro allI impI)
    fix i assume i: "i < length landmarks"
    have "weightedLandmark history (landmarks ! i) (0 + i) = Inr (averaged ! i)"
      using mapIndexed_Inr [OF m] i by simp
    moreover have "\<And>frame. frame \<in> set history \<Longrightarrow> i < length frame"
      using assms(3) i by simp
    ultimately show "averaged ! i =
              Landmark (specMean (map (\<lambda>frame. lm_x (frame ! i)) history))
                       (specMean (map (\<lambda>frame. lm_y (frame ! i)) history))
                       (lm_z (landmarks ! i)) (lm_vis (landmarks ! i))"
      using weightedLandmark_mean [OF ne, of i "landmarks ! i"] by simp
  qed
  then show ?thesis using av averageStep_shape(1) [OF av] by simp
next
  case False
  then have h: "history = [landmarks]"
    using assms(1,2) by (cases history) auto
  show ?thesis
    by (simp add: h averageStep_def specMean_single)
qed

lemma blendStep_nth:
  assumes "case lastOpt of None \<Rightarrow> True | Some previous \<Rightarrow> length previous = length averaged"
    and "i < length averaged"
  shows "blendStep lastOpt averaged ! i =
           (case lastOpt of
              None \<Rightarrow> averaged ! i
            | Some previous \<Rightarrow> blendLandmark (previous ! i) (averaged ! i))"
  using assms by (auto simp: blendStep_def blend_nth split: option.splits)

lemma drawSkeleton_meets_spec:
  assumes "uniform n s" and "length landmarks = n" and "0 < n"
  shows "(\<exists>out. drawSkeleton (Some landmarks) s =
            (\<lparr>landmarkHistory = specBuffer (landmarkHistory s) landmarks,
              lastLandmarks = Some out\<rparr>, Drawn out) \<and>
          length out = n \<and>
          (\<forall>i<n. out ! i =
             specSmoothed (specBuffer (landmarkHistory s) landmarks) (lastLandmarks s)
               landmarks i))
       \<and> length (specBuffer (landmarkHistory s) landmarks) \<le> 3
       \<and> (\<Sum>i<length (specBuffer (landmarkHistory s) landmarks).
             specNormalizedWeight (length (specBuffer (landmarkHistory s) landmarks)) i) = 1"
proof -
  let ?buffer = "specBuffer (landmarkHistory s) landmarks"
  have len: "length (landmarkHistory s) \<le> maxHistoryFrames"
    and frames: "\<And>frame. frame \<in> set (landmarkHistory s) \<Longrightarrow> length frame = n"
    and prev: "case lastLandmarks s of None \<Rightarrow> True | Some previous \<Rightarrow> length previous = n"
    using assms(1) by (simp_all add: uniform_def)
  have push: "pushHistory (landmarkHistory s) landmarks = ?buffer"
    using len by (rule pushHistory_specBuffer)
  have ne: "landmarks \<noteq> []" using assms(2,3) by auto
  have bufFrames: "\<And>frame. frame \<in> set ?buffer \<Longrightarrow> length frame = length landmarks"
    using set_specBuffer [of "landmarkHistory s" landmarks] frames assms(2) by auto
  have "last ?buffer = landmarks"
    by (simp add: specBuffer_def)
  then have newest: "landmarks \<in> set ?buffer"
    using last_in_set [OF specBuffer_nonempty [of "landmarkHistory s" landmarks]] by simp
  have single: "length ?buffer = 1 \<longrightarrow> ?buffer = [landmarks]"
    using newest by (cases ?buffer) auto
  from averageStep_mean [OF newest single bufFrames] obtain averaged where
    av: "averageStep ?buffer landmarks = Inr averaged"
    and avlen: "length averaged = length landmarks"
    and avnth: "\<And>i. i < length landmarks \<Longrightarrow> averaged ! i =
              Landmark (specMean (map (\<lambda>frame. lm_x (frame ! i)) ?buffer))
                       (specMean (map (\<lambda>frame. lm_y (frame ! i)) ?buffer))
                       (lm_z (landmarks ! i)) (lm_vis (landmarks ! i))"
    by blast
  let ?out = "blendStep (lastLandmarks s) averaged"
  have draw: "drawSkeleton (Some landmarks) s =
      (\<lparr>landmarkHistory = ?buffer, lastLandmarks = Some ?out\<rparr>, Drawn ?out)"
    using ne av push by (simp add: drawSkeleton_def Let_def)
  have outlen: "length ?out = n"
    using blendStep_shape(1) avlen assms(2) by simp
  have prev': "case lastLandmarks s of None \<Rightarrow> True
               | Some previous \<Rightarrow> length previous = length averaged"
    using prev avlen assms(2) by (simp split: option.splits)
  have outnth: "\<forall>i<n. ?out ! i = specSmoothed ?buffer (lastLandmarks s) landmarks i"
  proof (intro allI impI)
    fix i assume i: "i < n"
    then have i': "i < length averaged" and i'': "i < length landmarks"
      using avlen assms(2) by simp_all
    show "?out ! i = specSmoothed ?buffer (lastLandmarks s) landmarks i"
      using blendStep_nth [OF prev' i'] avnth [OF i'']
      by (simp add: specSmoothed_def blendLandmark_def smoothingFactor_def Let_def
          split: option.splits)
  qed
  have wsum: "(\<Sum>i<length ?buffer. specNormalizedWeight (length ?buffer) i) = 1"
    using specBuffer_nonempty [of "landmarkHistory s" landmarks]
    by (intro specNormalizedWeight_sum) simp
  show ?thesis
    using draw outlen outnth length_specBuffer wsum by blast
qed

text \<open>
  C6.  For every new frame of \<open>n\<close> landmarks arriving at a smoother whose buffered frames
  and previous output have \<open>n\<close> landmarks: the buffer becomes the newest three frames;
  every landmark is drawn as the specification computes it, the recency-weighted average
  of the buffered \<open>x\<close> and \<open>y\<close> (position \<open>i\<close> of \<open>H\<close> weighted \<open>(i + 1) / H\<close>, normalised),
  blended as \<open>prev * 0.5 + new * 0.5\<close> exactly when the visibility exceeds 0.5 in the new
  frame and in the previous smoothed frame, and otherwise the average itself; the
  normalised weights sum to one.
\<close>


theorem smoother_follows_specification:
  assumes "uniform n s" and "length landmarks = n" and "0 < n"
  shows "(\<exists>out. drawSkeleton (Some landmarks) s =
            (\<lparr>landmarkHistory = specBuffer (landmarkHistory s) landmarks,
              lastLandmarks = Some out\<rparr>, Drawn out) \<and>
          length out = n \<and>
          (\<forall>i<n. out ! i =
             specSmoothed (specBuffer (landmarkHistory s) landmarks) (lastLandmarks s)
               landmarks i))
       \<and> length (specBuffer (landmarkHistory s) landmarks) \<le> 3
       \<and> (\<Sum>i<length (specBuffer (landmarkHistory s) landmarks).
             specNormalizedWeight (length (specBuffer (landmarkHistory s) landmarks)) i) = 1"
  using assms by (rule drawSkeleton_meets_spec)

theorem smoother_follows_specification_witness:
  "uniform 1 \<lparr>landmarkHistory = [originFrame], lastLandmarks = Some originFrame\<rparr>
   \<and> length unitFrame = 1
   \<and> drawSkeleton (Some unitFrame)
        \<lparr>landmarkHistory = [originFrame], lastLandmarks = Some originFrame\<rparr>
      = (\<lparr>landmarkHistory = [originFrame, unitFrame],
          lastLandmarks = Some [Landmark (1/3) (1/3) 0 1]\<rparr>,
         Drawn [Landmark (1/3) (1/3) 0 1])
   \<and> specSmoothed [originFrame, unitFrame] (Some originFrame) unitFrame 0
      = Landmark (1/3) (1/3) 0 1"
proof -
  let ?s = "\<lparr>landmarkHistory = [originFrame], lastLandmarks = Some originFrame\<rparr>"
  have u: "uniform 1 ?s"
    by (simp add: uniform_def originFrame_def maxHistoryFrames_def)
  have l: "length unitFrame = 1"
    by (simp add: unitFrame_def)
  have b: "specBuffer [originFrame] unitFrame = [originFrame, unitFrame]"
    by (simp add: specBuffer_def)
  from smoother_follows_specification [OF u l] obtain out where
    d: "drawSkeleton (Some unitFrame) ?s =
          (\<lparr>landmarkHistory = [originFrame, unitFrame], lastLandmarks = Some out\<rparr>, Drawn out)"
    and n: "length out = 1"
    and o: "out ! 0 = specSmoothed [originFrame, unitFrame] (Some originFrame) unitFrame 0"
    using b by auto
  have v: "specSmoothed [originFrame, unitFrame] (Some originFrame) unitFrame 0
             = Landmark (1/3) (1/3) 0 1"
    by (simp add: specSmoothed_def specMean_def specNormalizedWeight_def specWeight_def
        originFrame_def unitFrame_def Let_def)
  have "out = [Landmark (1/3) (1/3) 0 1]"
    using n o v by (cases out) simp_all
  then show ?thesis using u l d v by simp
qed

section \<open>A static frame fed repeatedly\<close>

lemma specMean_const:
  assumes "xs \<noteq> []" and "\<And>x. x \<in> set xs \<Longrightarrow> x = c"
  shows "specMean xs = c"
proof -
  have "specMean xs = (\<Sum>i<length xs. specNormalizedWeight (length xs) i * c)"
    unfolding specMean_def using assms(2) by (intro sum.cong) auto
  also have "\<dots> = (\<Sum>i<length xs. specNormalizedWeight (length xs) i) * c"
    by (simp add: sum_distrib_right)
  also have "\<dots> = c"
    using assms(1) by (simp add: specNormalizedWeight_sum)
  finally show ?thesis .
qed

lemma averageStep_const:
  assumes "static \<in> set history" and "\<And>frame. frame \<in> set history \<Longrightarrow> frame = static"
  shows "averageStep history static = Inr static"
proof -
  have single: "length history = 1 \<longrightarrow> history = [static]"
    using assms(1) by (cases history) auto
  have same: "\<And>frame. frame \<in> set history \<Longrightarrow> length frame = length static"
    using assms(2) by simp
  from averageStep_mean [OF assms(1) single same] obtain averaged where
    av: "averageStep history static = Inr averaged"
    and len: "length averaged = length static"
    and nth: "\<And>i. i < length static \<Longrightarrow> averaged ! i =
              Landmark (specMean (map (\<lambda>frame. lm_x (frame ! i)) history))
                       (specMean (map (\<lambda>frame. lm_y (frame ! i)) history))
                       (lm_z (static ! i)) (lm_vis (static ! i))"
    by blast
  have ne: "history \<noteq> []" using assms(1) by auto
  have "averaged = static"
  proof (rule nth_equalityI)
    show "length averaged = length static" by (rule len)
  next
    fix i assume "i < length averaged"
    then have i: "i < length static" using len by simp
    have x: "specMean (map (\<lambda>frame. lm_x (frame ! i)) history) = lm_x (static ! i)"
      using ne assms(2) by (intro specMean_const) auto
    have y: "specMean (map (\<lambda>frame. lm_y (frame ! i)) history) = lm_y (static ! i)"
      using ne assms(2) by (intro specMean_const) auto
    show "averaged ! i = static ! i"
      using nth [OF i] x y by simp
  qed
  then show ?thesis using av by simp
qed

lemma blendLandmark_same: "blendLandmark l l = l"
  by (cases l) (simp add: blendLandmark_def smoothingFactor_def)

lemma blend_same: "blend static static = static"
  by (rule nth_equalityI) (simp_all add: blend_length blend_nth blendLandmark_same)

lemma feed_static_fresh:
  assumes "static \<noteq> []"
    and "\<And>frame. frame \<in> set (landmarkHistory s) \<Longrightarrow> frame = static"
    and "lastLandmarks s = None \<or> lastLandmarks s = Some static"
  shows "(\<forall>frame \<in> set (landmarkHistory (feed static s)). frame = static)
       \<and> lastLandmarks (feed static s) = Some static"
proof -
  let ?h = "pushHistory (landmarkHistory s) static"
  have all: "\<And>frame. frame \<in> set ?h \<Longrightarrow> frame = static"
    using set_pushHistory [of "landmarkHistory s" static] assms(2) by auto
  have "?h \<noteq> []"
    by (simp add: pushHistory_def maxHistoryFrames_def Let_def) (cases "landmarkHistory s"; simp)
  then have "static \<in> set ?h"
    using all by (cases ?h) auto
  then have av: "averageStep ?h static = Inr static"
    using all by (rule averageStep_const)
  have "blendStep (lastLandmarks s) static = static"
    using assms(3) by (auto simp: blendStep_def blend_same)
  then show ?thesis
    using assms(1) av all by (simp add: feed_def drawSkeleton_def Let_def)
qed

lemma feeds_static_fresh:
  assumes "static \<noteq> []"
  shows "(\<forall>frame \<in> set (landmarkHistory (feeds (Suc m) static freshSmoother)). frame = static)
       \<and> lastLandmarks (feeds (Suc m) static freshSmoother) = Some static"
proof (induction m)
  case 0
  show ?case
    using feed_static_fresh [OF assms, of freshSmoother]
    by (simp add: freshSmoother_def)
next
  case (Suc m)
  show ?case
    using feed_static_fresh [OF assms, of "feeds (Suc m) static freshSmoother"] Suc.IH
    by simp
qed

lemma uniform_fresh: "uniform n freshSmoother"
  by (simp add: uniform_def freshSmoother_def)

lemma uniform_feed:
  assumes "uniform n s" and "length static = n" and "0 < n"
  shows "uniform n (feed static s)"
    and "landmarkHistory (feed static s) = pushHistory (landmarkHistory s) static"
    and "\<exists>out. lastLandmarks (feed static s) = Some out \<and> length out = n \<and>
           (\<forall>i<n. lm_z (out ! i) = lm_z (static ! i) \<and> lm_vis (out ! i) = lm_vis (static ! i))"
proof -
  from drawSkeleton_meets_spec [OF assms] obtain out where
    d: "drawSkeleton (Some static) s =
          (\<lparr>landmarkHistory = specBuffer (landmarkHistory s) static,
            lastLandmarks = Some out\<rparr>, Drawn out)"
    and len: "length out = n"
    by blast
  have push: "pushHistory (landmarkHistory s) static = specBuffer (landmarkHistory s) static"
    using assms(1) by (intro pushHistory_specBuffer) (simp add: uniform_def)
  show "landmarkHistory (feed static s) = pushHistory (landmarkHistory s) static"
    using d push by (simp add: feed_def)
  have "\<And>frame. frame \<in> set (specBuffer (landmarkHistory s) static) \<Longrightarrow> length frame = n"
    using set_specBuffer [of "landmarkHistory s" static] assms(1,2)
    by (auto simp: uniform_def)
  then show "uniform n (feed static s)"
    using d len length_specBuffer [of "landmarkHistory s" static]
    by (simp add: feed_def uniform_def maxHistoryFrames_def)
  have "\<forall>i<length static.
         lm_z (out ! i) = lm_z (static ! i) \<and> lm_vis (out ! i) = lm_vis (static ! i)"
    using drawSkeleton_keeps_z_vis [of static s _ out] d by blast
  then show "\<exists>out. lastLandmarks (feed static s) = Some out \<and> length out = n \<and>
           (\<forall>i<n. lm_z (out ! i) = lm_z (static ! i) \<and> lm_vis (out ! i) = lm_vis (static ! i))"
    using d len assms(2) by (simp add: feed_def)
qed

lemma uniform_feeds:
  assumes "uniform n s" and "length static = n" and "0 < n"
  shows "uniform n (feeds m static s)"
  by (induction m) (simp_all add: assms uniform_feed(1))

lemma pushHistory_thrice:
  assumes "length history \<le> maxHistoryFrames"
  shows "pushHistory (pushHistory (pushHistory history static) static) static
           = [static, static, static]"
proof (cases history)
  case Nil
  then show ?thesis by (simp add: pushHistory_def maxHistoryFrames_def Let_def)
next
  case one: (Cons a h1)
  show ?thesis
  proof (cases h1)
    case Nil
    then show ?thesis using one by (simp add: pushHistory_def maxHistoryFrames_def Let_def)
  next
    case two: (Cons b h2)
    show ?thesis
    proof (cases h2)
      case Nil
      then show ?thesis
        using one two by (simp add: pushHistory_def maxHistoryFrames_def Let_def)
    next
      case three: (Cons c h3)
      then have "h3 = []" using assms one two by (simp add: maxHistoryFrames_def)
      then show ?thesis
        using one two three by (simp add: pushHistory_def maxHistoryFrames_def Let_def)
    qed
  qed
qed

lemma feeds_history_static:
  assumes "uniform n s" and "length static = n" and "0 < n"
  shows "pushHistory (landmarkHistory (feeds (Suc (Suc m)) static s)) static
           = [static, static, static]"
proof -
  have u: "uniform n (feeds m static s)"
    using assms by (rule uniform_feeds)
  have u1: "uniform n (feed static (feeds m static s))"
    using u assms(2,3) by (rule uniform_feed(1))
  have "landmarkHistory (feeds (Suc (Suc m)) static s)
          = pushHistory (pushHistory (landmarkHistory (feeds m static s)) static) static"
    using uniform_feed(2) [OF u assms(2,3)] uniform_feed(2) [OF u1 assms(2,3)] by simp
  moreover have "length (landmarkHistory (feeds m static s)) \<le> maxHistoryFrames"
    using u by (simp add: uniform_def)
  ultimately show ?thesis
    by (simp add: pushHistory_thrice)
qed

lemma feed_static_step:
  assumes "uniform n s" and "length static = n" and "0 < n" and "2 \<le> m" and "i < n"
  shows "emitted (feeds (Suc m) static s) ! i =
           (if lm_vis (static ! i) > 0.5
            then Landmark ((lm_x (emitted (feeds m static s) ! i) + lm_x (static ! i)) / 2)
                          ((lm_y (emitted (feeds m static s) ! i) + lm_y (static ! i)) / 2)
                          (lm_z (static ! i)) (lm_vis (static ! i))
            else static ! i)"
proof -
  from assms(4) obtain k where m: "m = Suc (Suc k)"
    by (metis Suc_le_D numeral_2_eq_2 Suc_le_mono)
  let ?s = "feeds m static s"
  have u: "uniform n (feeds (Suc k) static s)"
    using assms(1-3) by (rule uniform_feeds)
  from uniform_feed(3) [OF u assms(2,3)] obtain prev where
    prev: "lastLandmarks ?s = Some prev" and plen: "length prev = n"
    and pvis: "lm_vis (prev ! i) = lm_vis (static ! i)"
    using assms(5) m by auto
  have hist: "pushHistory (landmarkHistory ?s) static = [static, static, static]"
    using feeds_history_static [OF assms(1-3), of k] m by simp
  have av: "averageStep [static, static, static] static = Inr static"
    by (rule averageStep_const) simp_all
  have ne: "static \<noteq> []" using assms(2,3) by auto
  have "lastLandmarks (feed static ?s) = Some (blend prev static)"
    using ne hist av prev plen assms(2)
    by (simp add: feed_def drawSkeleton_def blendStep_def Let_def)
  then have "emitted (feeds (Suc m) static s) ! i = blendLandmark (prev ! i) (static ! i)"
    using plen assms(2,5) by (simp add: emitted_def blend_nth)
  moreover have "emitted ?s ! i = prev ! i"
    using prev by (simp add: emitted_def)
  ultimately show ?thesis
    using pvis by (cases "static ! i") (simp add: blendLandmark_def smoothingFactor_def field_simps)
qed

lemma halving_converges:
  fixes a :: "nat \<Rightarrow> real"
  assumes "\<And>m. 2 \<le> m \<Longrightarrow> a (Suc m) - c = (a m - c) * r" and "0 \<le> r" and "r < 1"
  shows "a \<longlonglongrightarrow> c"
proof -
  have closed: "a (k + 2) - c = (a 2 - c) * r ^ k" for k
  proof (induction k)
    case 0
    show ?case by (simp add: numeral_2_eq_2)
  next
    case (Suc k)
    have "a (Suc (k + 2)) - c = (a (k + 2) - c) * r"
      by (rule assms(1)) simp
    then show ?case using Suc.IH by simp
  qed
  have "(\<lambda>k. r ^ k) \<longlonglongrightarrow> 0"
    using assms(2,3) by (rule LIMSEQ_realpow_zero)
  then have "(\<lambda>k. (a 2 - c) * r ^ k) \<longlonglongrightarrow> (a 2 - c) * 0"
    by (rule tendsto_mult_left)
  then have "(\<lambda>k. a (k + 2) - c) \<longlonglongrightarrow> 0"
    using closed by simp
  then have "(\<lambda>k. a (k + 2)) \<longlonglongrightarrow> c"
    by (simp add: LIM_zero_iff)
  then show ?thesis
    by (rule LIMSEQ_offset)
qed

lemma static_frame_limit:
  assumes "uniform n s" and "length static = n" and "0 < n" and "i < n"
  shows "(\<lambda>m. lm_x (emitted (feeds m static s) ! i)) \<longlonglongrightarrow> lm_x (static ! i)"
    and "(\<lambda>m. lm_y (emitted (feeds m static s) ! i)) \<longlonglongrightarrow> lm_y (static ! i)"
proof -
  let ?r = "if lm_vis (static ! i) > 0.5 then 1 / 2 else (0::real)"
  have r: "0 \<le> ?r" "?r < 1" by simp_all
  have x: "lm_x (emitted (feeds (Suc m) static s) ! i) - lm_x (static ! i)
             = (lm_x (emitted (feeds m static s) ! i) - lm_x (static ! i)) * ?r" if "2 \<le> m" for m
    using feed_static_step [OF assms(1-3) that assms(4)] by (simp add: field_simps)
  have y: "lm_y (emitted (feeds (Suc m) static s) ! i) - lm_y (static ! i)
             = (lm_y (emitted (feeds m static s) ! i) - lm_y (static ! i)) * ?r" if "2 \<le> m" for m
    using feed_static_step [OF assms(1-3) that assms(4)] by (simp add: field_simps)
  show "(\<lambda>m. lm_x (emitted (feeds m static s) ! i)) \<longlonglongrightarrow> lm_x (static ! i)"
    using x r by (rule halving_converges)
  show "(\<lambda>m. lm_y (emitted (feeds m static s) ! i)) \<longlonglongrightarrow> lm_y (static ! i)"
    using y r by (rule halving_converges)
qed


lemma static_frame_eventually:
  assumes "uniform n s" and "length static = n" and "0 < n" and "i < n" and "0 < eps"
  shows "\<exists>N. \<forall>m\<ge>N. \<bar>lm_x (emitted (feeds m static s) ! i) - lm_x (static ! i)\<bar> < eps
                    \<and> \<bar>lm_y (emitted (feeds m static s) ! i) - lm_y (static ! i)\<bar> < eps"
proof -
  from static_frame_limit(1) [OF assms(1-4)] assms(5) obtain Nx where
    x: "\<And>m. Nx \<le> m \<Longrightarrow> \<bar>lm_x (emitted (feeds m static s) ! i) - lm_x (static ! i)\<bar> < eps"
    unfolding lim_sequentially dist_real_def by blast
  from static_frame_limit(2) [OF assms(1-4)] assms(5) obtain Ny where
    y: "\<And>m. Ny \<le> m \<Longrightarrow> \<bar>lm_y (emitted (feeds m static s) ! i) - lm_y (static ! i)\<bar> < eps"
    unfolding lim_sequentially dist_real_def by blast
  have "\<forall>m\<ge>max Nx Ny. \<bar>lm_x (emitted (feeds m static s) ! i) - lm_x (static ! i)\<bar> < eps
                    \<and> \<bar>lm_y (emitted (feeds m static s) ! i) - lm_y (static ! i)\<bar> < eps"
    using x y by simp
  then show ?thesis by blast
qed

lemma feeds_z_vis:
  assumes "uniform n s" and "length static = n" and "0 < n" and "i < n"
  shows "lm_z (emitted (feeds (Suc m) static s) ! i) = lm_z (static ! i)
       \<and> lm_vis (emitted (feeds (Suc m) static s) ! i) = lm_vis (static ! i)"
proof -
  have u: "uniform n (feeds m static s)"
    using assms(1-3) by (rule uniform_feeds)
  from uniform_feed(3) [OF u assms(2,3)] show ?thesis
    using assms(4) by (auto simp: emitted_def)
qed

text \<open>Two concrete runs: three frames at the origin, then frames at \<open>(1, 1)\<close>.\<close>

lemmas smoother_eval =
  feed_def drawSkeleton_def pushHistory_def maxHistoryFrames_def averageStep_def
  weightedAverage_def weightedLandmark_def blendStep_def blend_def blendLandmark_def
  smoothingFactor_def freshSmoother_def originFrame_def unitFrame_def Let_def

lemma origin_thrice:
  "feeds 3 originFrame freshSmoother =
     \<lparr>landmarkHistory = [originFrame, originFrame, originFrame],
      lastLandmarks = Some originFrame\<rparr>"
  by (simp add: numeral_3_eq_3 smoother_eval)

lemma unit_after_origin:
  "feeds 2 unitFrame (feeds 3 originFrame freshSmoother) =
     \<lparr>landmarkHistory = [originFrame, unitFrame, unitFrame],
      lastLandmarks = Some [Landmark (13/24) (13/24) 0 1]\<rparr>"
  "feeds 3 unitFrame (feeds 3 originFrame freshSmoother) =
     \<lparr>landmarkHistory = [unitFrame, unitFrame, unitFrame],
      lastLandmarks = Some [Landmark (37/48) (37/48) 0 1]\<rparr>"
  by (simp_all add: origin_thrice) (simp_all add: numeral_3_eq_3 numeral_2_eq_2 smoother_eval)

text \<open>
  C9, as the code has it, in the exact arithmetic of the model and for every tolerance
  \<open>eps > 0\<close>.  A static frame of \<open>n\<close> landmarks is fed again and again to a smoother whose
  buffered frames and previous output have \<open>n\<close> landmarks.  From a freshly reset smoother
  every output is within the tolerance of the frame.  From any such state the output comes
  within the tolerance of the frame and stays there, but after a number of feeds that
  depends on the previous output and not after three: from the third feed on, a landmark
  whose visibility exceeds 0.5 is output, within the tolerance, halfway between its
  previous output and the frame in \<open>x\<close> and \<open>y\<close>, and a landmark at or below 0.5 within
  the tolerance of the frame.  From the first feed on, \<open>z\<close> and the visibility are the
  frame's.
\<close>

theorem static_frame_converges:
  assumes "uniform n s" and "length static = n" and "0 < n" and "0 < eps"
  shows "(\<forall>m i. i < n \<longrightarrow>
            \<bar>lm_x (emitted (feeds (Suc m) static freshSmoother) ! i) - lm_x (static ! i)\<bar> < eps
          \<and> \<bar>lm_y (emitted (feeds (Suc m) static freshSmoother) ! i) - lm_y (static ! i)\<bar> < eps)
       \<and> (\<forall>i<n. \<exists>N. \<forall>m\<ge>N.
            \<bar>lm_x (emitted (feeds m static s) ! i) - lm_x (static ! i)\<bar> < eps
          \<and> \<bar>lm_y (emitted (feeds m static s) ! i) - lm_y (static ! i)\<bar> < eps)
       \<and> (\<forall>m i. 2 \<le> m \<and> i < n \<longrightarrow>
            (if lm_vis (static ! i) > 0.5
             then \<bar>lm_x (emitted (feeds (Suc m) static s) ! i)
                    - (lm_x (emitted (feeds m static s) ! i) + lm_x (static ! i)) / 2\<bar> < eps
                \<and> \<bar>lm_y (emitted (feeds (Suc m) static s) ! i)
                    - (lm_y (emitted (feeds m static s) ! i) + lm_y (static ! i)) / 2\<bar> < eps
             else \<bar>lm_x (emitted (feeds (Suc m) static s) ! i) - lm_x (static ! i)\<bar> < eps
                \<and> \<bar>lm_y (emitted (feeds (Suc m) static s) ! i) - lm_y (static ! i)\<bar> < eps))
       \<and> (\<forall>m i. i < n \<longrightarrow>
            lm_z (emitted (feeds (Suc m) static s) ! i) = lm_z (static ! i)
          \<and> lm_vis (emitted (feeds (Suc m) static s) ! i) = lm_vis (static ! i))"
proof (intro conjI allI impI)
  fix m i :: nat
  assume i: "i < n"
  have "static \<noteq> []" using assms(2,3) by auto
  then have "emitted (feeds (Suc m) static freshSmoother) = static"
    using feeds_static_fresh [of static m] by (simp add: emitted_def)
  then show "\<bar>lm_x (emitted (feeds (Suc m) static freshSmoother) ! i) - lm_x (static ! i)\<bar> < eps"
    and "\<bar>lm_y (emitted (feeds (Suc m) static freshSmoother) ! i) - lm_y (static ! i)\<bar> < eps"
    using assms(4) by simp_all
next
  fix i assume "i < n"
  then show "\<exists>N. \<forall>m\<ge>N.
            \<bar>lm_x (emitted (feeds m static s) ! i) - lm_x (static ! i)\<bar> < eps
          \<and> \<bar>lm_y (emitted (feeds m static s) ! i) - lm_y (static ! i)\<bar> < eps"
    using static_frame_eventually [OF assms(1-3) _ assms(4)] by blast
next
  fix m i :: nat
  assume mi: "2 \<le> m \<and> i < n"
  then have m: "2 \<le> m" and i: "i < n" by simp_all
  show "if lm_vis (static ! i) > 0.5
        then \<bar>lm_x (emitted (feeds (Suc m) static s) ! i)
               - (lm_x (emitted (feeds m static s) ! i) + lm_x (static ! i)) / 2\<bar> < eps
           \<and> \<bar>lm_y (emitted (feeds (Suc m) static s) ! i)
               - (lm_y (emitted (feeds m static s) ! i) + lm_y (static ! i)) / 2\<bar> < eps
        else \<bar>lm_x (emitted (feeds (Suc m) static s) ! i) - lm_x (static ! i)\<bar> < eps
           \<and> \<bar>lm_y (emitted (feeds (Suc m) static s) ! i) - lm_y (static ! i)\<bar> < eps"
    using feed_static_step [OF assms(1-3) m i] assms(4) by simp
next
  fix m i :: nat
  assume "i < n"
  then show "lm_z (emitted (feeds (Suc m) static s) ! i) = lm_z (static ! i)"
    and "lm_vis (emitted (feeds (Suc m) static s) ! i) = lm_vis (static ! i)"
    using feeds_z_vis [OF assms(1-3)] by blast+
qed

theorem static_frame_converges_witness:
  "uniform 1 (feeds 3 originFrame freshSmoother)
   \<and> length unitFrame = 1
   \<and> (0::real) < 1/100
   \<and> emitted (feeds 2 unitFrame (feeds 3 originFrame freshSmoother)) = [Landmark (13/24) (13/24) 0 1]
   \<and> emitted (feeds 3 unitFrame (feeds 3 originFrame freshSmoother)) = [Landmark (37/48) (37/48) 0 1]
   \<and> \<bar>lm_x (emitted (feeds 3 unitFrame (feeds 3 originFrame freshSmoother)) ! 0)
        - (lm_x (emitted (feeds 2 unitFrame (feeds 3 originFrame freshSmoother)) ! 0)
            + lm_x (unitFrame ! 0)) / 2\<bar> < 1/100
   \<and> (\<exists>N. \<forall>m\<ge>N.
         \<bar>lm_x (emitted (feeds m unitFrame (feeds 3 originFrame freshSmoother)) ! 0)
            - lm_x (unitFrame ! 0)\<bar> < 1/100)"
proof -
  let ?s = "feeds 3 originFrame freshSmoother"
  have u: "uniform 1 ?s"
    unfolding origin_thrice by (simp add: uniform_def maxHistoryFrames_def originFrame_def)
  have l: "length unitFrame = 1"
    by (simp add: unitFrame_def)
  have z: "(0::nat) < 1" by simp
  have e: "(0::real) < 1/100" by simp
  note t = static_frame_converges [OF u l z e]
  have two: "emitted (feeds 2 unitFrame ?s) = [Landmark (13/24) (13/24) 0 1]"
    and three: "emitted (feeds 3 unitFrame ?s) = [Landmark (37/48) (37/48) 0 1]"
    by (simp_all add: unit_after_origin emitted_def)
  have step: "\<bar>lm_x (emitted (feeds 3 unitFrame ?s) ! 0)
        - (lm_x (emitted (feeds 2 unitFrame ?s) ! 0) + lm_x (unitFrame ! 0)) / 2\<bar> < 1/100"
    unfolding two three by (simp add: unitFrame_def)
  have "\<exists>N. \<forall>m\<ge>N.
         \<bar>lm_x (emitted (feeds m unitFrame ?s) ! 0) - lm_x (unitFrame ! 0)\<bar> < 1/100
       \<and> \<bar>lm_y (emitted (feeds m unitFrame ?s) ! 0) - lm_y (unitFrame ! 0)\<bar> < 1/100"
    using conjunct1 [OF conjunct2 [OF t]] by simp
  then have lim: "\<exists>N. \<forall>m\<ge>N.
         \<bar>lm_x (emitted (feeds m unitFrame ?s) ! 0) - lm_x (unitFrame ! 0)\<bar> < 1/100"
    by blast
  show ?thesis
    using u l e two three step lim by blast
qed

text \<open>
  C9 as stated fails: after three frames at the origin, three identical frames at
  \<open>(1, 1)\<close> leave the output at \<open>(37/48, 37/48)\<close>, at distance \<open>11/48\<close> from the frame.
\<close>

theorem three_repeats_do_not_reach_the_frame:
  "emitted (feeds 3 unitFrame (feeds 3 originFrame freshSmoother)) = [Landmark (37/48) (37/48) 0 1]
   \<and> unitFrame = [Landmark 1 1 0 1]
   \<and> \<bar>lm_x (emitted (feeds 3 unitFrame (feeds 3 originFrame freshSmoother)) ! 0)
        - lm_x (unitFrame ! 0)\<bar> = 11/48"
  by (simp add: unit_after_origin emitted_def) (simp add: unitFrame_def)

section \<open>The countdown handlers\<close>

lemmas countdown_defs =
  startCountdown_def resetCountdown_def setInterval_def clearInterval_def

lemma Holding_timers:
  "Holding s \<longleftrightarrow>
     isInCorrectPose s \<and> (\<exists>t. timers s = [(t, 1000)] \<and> countdownInterval s = Some t)"
  by (auto simp: Holding_def split: list.splits)

lemma drawSkeleton_no_throw:
  assumes "framesCover (landmarkHistory sm) arg"
  shows "snd (drawSkeleton arg sm) \<noteq> Threw e"
proof (cases arg)
  case None
  then show ?thesis by (simp add: drawSkeleton_def)
next
  case (Some landmarks)
  show ?thesis
  proof (cases "landmarks = []")
    case True
    then show ?thesis using Some by (simp add: drawSkeleton_def)
  next
    case False
    then show ?thesis
      using drawSkeleton_draws [of landmarks sm] assms Some by auto
  qed
qed

lemma handlePoseData_Success:
  assumes "framesCover (landmarkHistory (smoothing s)) landmarks"
  shows "handlePoseData dur (Success landmarks accuracy feedbackText color) s =
           (let s1 = s\<lparr>smoothing := fst (drawSkeleton landmarks (smoothing s))\<rparr>
            in if accuracy \<ge> 70 \<and> color = ''green'' then
                 (if \<not> isInCorrectPose s
                  then (startCountdown dur (s1\<lparr>isInCorrectPose := True\<rparr>), None)
                  else (s1, None))
               else
                 (if isInCorrectPose s
                  then (resetCountdown dur (s1\<lparr>isInCorrectPose := False\<rparr>), None)
                  else (s1, None)))"
proof -
  obtain sm d where d: "drawSkeleton landmarks (smoothing s) = (sm, d)"
    by (cases "drawSkeleton landmarks (smoothing s)")
  have "\<And>e. d \<noteq> Threw e"
    using drawSkeleton_no_throw [OF assms] d by simp
  then show ?thesis
    using d by (cases d) (auto simp: handlePoseData_def Let_def)
qed

lemma handlePoseData_idle:
  assumes "\<not> isInCorrectPose s" and "framesCover (landmarkHistory (smoothing s)) landmarks"
  shows "(isInCorrectPose (fst (handlePoseData dur (Success landmarks accuracy feedbackText color) s))
            \<longleftrightarrow> accuracy \<ge> 70 \<and> color = ''green'')
       \<and> (accuracy \<ge> 70 \<and> color = ''green'' \<longrightarrow>
            countdown (fst (handlePoseData dur (Success landmarks accuracy feedbackText color) s)) = dur
          \<and> countdownInterval (fst (handlePoseData dur (Success landmarks accuracy feedbackText color) s))
              = Some (nextTimer s)
          \<and> timers (fst (handlePoseData dur (Success landmarks accuracy feedbackText color) s))
              = timers s @ [(nextTimer s, 1000)]
          \<and> (timers s = [] \<longrightarrow>
                Holding (fst (handlePoseData dur (Success landmarks accuracy feedbackText color) s))))
       \<and> (\<not> (accuracy \<ge> 70 \<and> color = ''green'') \<longrightarrow>
            timers (fst (handlePoseData dur (Success landmarks accuracy feedbackText color) s)) = timers s
          \<and> countdown (fst (handlePoseData dur (Success landmarks accuracy feedbackText color) s))
              = countdown s)
       \<and> \<not> isInCorrectPose (fst (handlePoseData dur (Failure message) s))"
proof -
  let ?s' = "fst (handlePoseData dur (Success landmarks accuracy feedbackText color) s)"
  have fail: "\<not> isInCorrectPose (fst (handlePoseData dur (Failure message) s))"
    using assms(1)
    by (simp add: handlePoseData_def countdown_defs split: option.splits)
  show ?thesis
  proof (cases "accuracy \<ge> 70 \<and> color = ''green''")
    case True
    then have eq: "?s' = startCountdown dur
                     (s\<lparr>smoothing := fst (drawSkeleton landmarks (smoothing s)),
                        isInCorrectPose := True\<rparr>)"
      using assms(1) by (simp add: handlePoseData_Success [OF assms(2)] Let_def)
    have "isInCorrectPose ?s'" "countdown ?s' = dur" "countdownInterval ?s' = Some (nextTimer s)"
      "timers ?s' = timers s @ [(nextTimer s, 1000)]"
      unfolding eq by (simp_all add: countdown_defs)
    moreover from this have "timers s = [] \<longrightarrow> Holding ?s'"
      by (simp add: Holding_timers)
    ultimately show ?thesis using True fail by blast
  next
    case False
    then have eq: "?s' = s\<lparr>smoothing := fst (drawSkeleton landmarks (smoothing s))\<rparr>"
      using assms(1) by (auto simp: handlePoseData_Success [OF assms(2)] Let_def)
    have "\<not> isInCorrectPose ?s'" "timers ?s' = timers s" "countdown ?s' = countdown s"
      unfolding eq using assms(1) by simp_all
    then show ?thesis using False fail by blast
  qed
qed

lemma handlePoseData_legacy_gate:
  assumes "\<not> isInCorrectPose s"
  shows "isInCorrectPose (handlePoseData_legacy dur (Success landmarks accuracy feedbackText color) s)
           \<longleftrightarrow> accuracy \<ge> 90 \<and> color = ''green''"
  using assms by (simp add: handlePoseData_legacy_def Let_def countdown_defs)


section \<open>The timer invariant\<close>

lemma timerInv_clear:
  "timerInv s \<Longrightarrow> timers (clearInterval (countdownInterval s) s) = []"
  by (auto simp: timerInv_def Holding_timers clearInterval_def split: option.splits)

lemma timerInv_idle: "timerInv s \<Longrightarrow> \<not> isInCorrectPose s \<Longrightarrow> timers s = []"
  by (auto simp: timerInv_def Holding_timers)

lemma timerInv_cong:
  assumes "timers s' = timers s" and "isInCorrectPose s' = isInCorrectPose s"
    and "countdownInterval s' = countdownInterval s"
  shows "timerInv s' = timerInv s" and "Holding s' = Holding s"
  using assms by (simp_all add: timerInv_def Holding_timers)

lemma timers_stopCamera: "timerInv s \<Longrightarrow> timers (stopCamera s) = []"
  using timerInv_clear [of s]
  by (simp add: stopCamera_def clearInterval_def split: option.splits)

lemma timerInv_stopCamera: "timerInv s \<Longrightarrow> timerInv (stopCamera s)"
  using timers_stopCamera [of s] by (simp add: timerInv_def)

text \<open>\<open>stopCamera\<close> leaves a pending second part of \<open>switchCamera\<close> pending.\<close>

lemma switching_stopCamera: "switching (stopCamera s) = switching s"
  by (simp add: stopCamera_def clearInterval_def split: option.splits)

lemma stopped_stopCamera: "timerInv s \<Longrightarrow> switching s = None \<Longrightarrow> stopped (stopCamera s)"
  using timers_stopCamera [of s] switching_stopCamera [of s]
  by (simp add: stopped_def) (simp add: stopCamera_def clearInterval_def split: option.splits)

lemma stopped_timerInv: "stopped s \<Longrightarrow> timerInv s"
  by (simp add: stopped_def timerInv_def)

lemma timerInv_resetCountdown:
  "timerInv s \<Longrightarrow> timers (resetCountdown dur s) = []"
  using timerInv_clear [of s] by (simp add: resetCountdown_def clearInterval_def split: option.splits)

lemma handlePoseData_timerInv:
  assumes "timerInv s"
  shows "timerInv (fst (handlePoseData dur data s))"
proof (cases data)
  case (Failure message)
  then show ?thesis
    using timerInv_resetCountdown [OF assms, of dur]
    by (simp add: handlePoseData_def timerInv_def)
next
  case (Success landmarks accuracy feedbackText color)
  obtain sm d where d: "drawSkeleton landmarks (smoothing s) = (sm, d)"
    by (cases "drawSkeleton landmarks (smoothing s)")
  let ?s1 = "s\<lparr>smoothing := sm\<rparr>"
  have s1: "timerInv ?s1" "Holding ?s1 = Holding s"
    using assms timerInv_cong [of ?s1 s] by simp_all
  have start: "timerInv (startCountdown dur (?s1\<lparr>isInCorrectPose := True\<rparr>))"
    if "\<not> isInCorrectPose s"
    using timerInv_idle [OF assms that]
    by (simp add: timerInv_def Holding_timers countdown_defs)
  have reset: "timerInv (resetCountdown dur (?s1\<lparr>isInCorrectPose := False\<rparr>))"
    if "isInCorrectPose s"
    using timerInv_clear [OF assms]
    by (simp add: timerInv_def resetCountdown_def clearInterval_def split: option.splits)
  show ?thesis
    using Success d s1(1) start reset
    by (cases d) (simp_all add: handlePoseData_def Let_def)
qed

lemma processFrame_countdown_fields:
  "timers (processFrame v c s) = timers s"
  "isInCorrectPose (processFrame v c s) = isInCorrectPose s"
  "countdownInterval (processFrame v c s) = countdownInterval s"
  "countdown (processFrame v c s) = countdown s"
  "completions (processFrame v c s) = completions s"
  by (simp_all add: processFrame_def)

lemma countdownTick_timerInv:
  assumes "timerInv s"
  shows "timerInv (countdownTick s)"
proof (cases "countdown s - 1 \<le> 0")
  case True
  let ?s1 = "s\<lparr>countdown := countdown s - 1\<rparr>"
  have "timerInv ?s1" using assms timerInv_cong(1) [of ?s1 s] by simp
  then have "timers (clearInterval (countdownInterval ?s1) ?s1) = []"
    by (rule timerInv_clear)
  then have "timerInv ((clearInterval (countdownInterval ?s1) ?s1)
                \<lparr>completions := Suc (completions (clearInterval (countdownInterval ?s1) ?s1))\<rparr>)"
    by (simp add: timerInv_def)
  then show ?thesis
    using True timerInv_stopCamera
    by (simp add: countdownTick_def exerciseCompleted_def Let_def)
next
  case False
  then show ?thesis
    using assms timerInv_cong(1) [of "s\<lparr>countdown := countdown s - 1\<rparr>" s]
    by (simp add: countdownTick_def Let_def)
qed

lemma step_timerInv:
  assumes "timerInv s"
  shows "timerInv (step dur e s)"
proof (cases e)
  case (OnOpen v c)
  then show ?thesis
    using assms timerInv_cong(1) [of "onopen v c s" s]
    by (simp add: step_def onopen_def processFrame_countdown_fields)
next
  case (ProcessFrame v c)
  then show ?thesis
    using assms timerInv_cong(1) [of "processFrame v c s" s]
    by (simp add: step_def processFrame_countdown_fields)
next
  case (OnMessage msg)
  show ?thesis
  proof (cases msg)
    case None
    then show ?thesis
      using OnMessage assms
      by (simp add: step_def onmessage_def timerInv_def Holding_timers)
  next
    case (Some data)
    have "timerInv (s\<lparr>inFlight := inFlight s - 1\<rparr>)"
      using assms by (simp add: timerInv_def Holding_timers)
    from handlePoseData_timerInv [OF this, of dur data]
    have "timerInv ((fst (handlePoseData dur data (s\<lparr>inFlight := inFlight s - 1\<rparr>)))
                      \<lparr>processingFrame := False\<rparr>)"
      by (simp add: timerInv_def Holding_timers)
    then show ?thesis
      using OnMessage Some assms by (simp add: step_def onmessage_def)
  qed
next
  case OnError
  then show ?thesis using assms by (simp add: step_def timerInv_def Holding_timers)
next
  case OnClose
  then show ?thesis using assms by (simp add: step_def timerInv_def Holding_timers)
next
  case (Tick t)
  then show ?thesis using assms countdownTick_timerInv by (simp add: step_def)
next
  case StopCamera
  then show ?thesis
    using timerInv_stopCamera [OF assms] by (simp add: step_def)
next
  case SwitchCamera
  then show ?thesis using assms by (simp add: step_def switchCamera_def timerInv_def Holding_timers)
next
  case (SwitchCameraResume cameraOk)
  then show ?thesis
    using assms
    by (simp add: step_def switchCameraResume_def connectWebSocket_def timerInv_def
        Holding_timers split: option.splits)
qed

lemma run_timerInv: "timerInv s \<Longrightarrow> timerInv (run dur es s)"
  by (induction es arbitrary: s) (simp_all add: step_timerInv)

lemma timerInv_pageLoad: "timerInv pageLoad" "timerInv (connectWebSocket pageLoad)"
  by (simp_all add: timerInv_def pageLoad_def connectWebSocket_def)

section \<open>After the session has stopped\<close>

lemma stopCamera_stopped: "stopped s \<Longrightarrow> stopCamera s = s"
  by (simp add: stopped_def stopCamera_def clearInterval_def)

lemma step_stopped: "stopped s \<Longrightarrow> step dur e s = s"
  by (cases e)
     (simp_all add: step_def stopCamera_stopped switchCamera_def switchCameraResume_def
        processFrame_def,
      simp_all add: stopped_def)

lemma run_stopped: "stopped s \<Longrightarrow> run dur es s = s"
  by (induction es) (simp_all add: step_stopped)

lemma countdownTick_completes:
  assumes "timerInv s" and "countdown s \<le> 1"
  shows "completions (countdownTick s) = Suc (completions s)"
    and "countdown (countdownTick s) = countdown s - 1"
    and "isInCorrectPose (countdownTick s) = isInCorrectPose s"
    and "switching (countdownTick s) = switching s"
    and "switching s = None \<Longrightarrow> stopped (countdownTick s)"
proof -
  let ?s1 = "s\<lparr>countdown := countdown s - 1\<rparr>"
  let ?s2 = "(clearInterval (countdownInterval ?s1) ?s1)
               \<lparr>completions := Suc (completions (clearInterval (countdownInterval ?s1) ?s1))\<rparr>"
  have tick: "countdownTick s = stopCamera ?s2"
    using assms(2) by (simp add: countdownTick_def exerciseCompleted_def Let_def)
  have "timerInv ?s1" using assms(1) timerInv_cong(1) [of ?s1 s] by simp
  then have "timers (clearInterval (countdownInterval ?s1) ?s1) = []"
    by (rule timerInv_clear)
  then have inv2: "timerInv ?s2" by (simp add: timerInv_def)
  have sw: "switching ?s2 = switching s"
    by (simp add: clearInterval_def split: option.splits)
  show "switching (countdownTick s) = switching s"
    unfolding tick using sw by (simp add: switching_stopCamera)
  show "stopped (countdownTick s)" if "switching s = None"
    unfolding tick using inv2 sw that by (intro stopped_stopCamera) simp_all
  show "completions (countdownTick s) = Suc (completions s)"
    unfolding tick by (simp add: stopCamera_def clearInterval_def split: option.splits)
  show "countdown (countdownTick s) = countdown s - 1"
    unfolding tick by (simp add: stopCamera_def clearInterval_def split: option.splits)
  show "isInCorrectPose (countdownTick s) = isInCorrectPose s"
    unfolding tick by (simp add: stopCamera_def clearInterval_def split: option.splits)
qed

lemma handlePoseData_other_fields:
  "completions (fst (handlePoseData dur data s)) = completions s"
  "inFlight (fst (handlePoseData dur data s)) = inFlight s"
  "ws (fst (handlePoseData dur data s)) = ws s"
  "processingFrame (fst (handlePoseData dur data s)) = processingFrame s"
  "isTracking (fst (handlePoseData dur data s)) = isTracking s"
  by (auto simp: handlePoseData_def countdown_defs Let_def
      split: evaluation.splits prod.splits drawn.splits option.splits)

lemma stopCamera_completions: "completions (stopCamera s) = completions s"
  by (simp add: stopCamera_def clearInterval_def split: option.splits)

text \<open>
  While no camera switch is begun, an event either leaves the completion count or raises
  it by one and stops the session for good.
\<close>

lemma step_completions:
  assumes "timerInv s" and "switching s = None" and "e \<noteq> SwitchCamera"
  shows "switching (step dur e s) = None
       \<and> (completions (step dur e s) = completions s
          \<or> (completions (step dur e s) = Suc (completions s) \<and> stopped (step dur e s)))"
proof (cases e)
  case (Tick t)
  show ?thesis
  proof (cases "t \<in> fst ` set (timers s) \<and> countdown s \<le> 1")
    case True
    then show ?thesis
      using Tick countdownTick_completes(1,4,5) [OF assms(1)] assms(2) by (simp add: step_def)
  next
    case False
    then show ?thesis
      using Tick assms(2) by (auto simp: step_def countdownTick_def Let_def)
  qed
next
  case (OnMessage msg)
  have "switching (fst (handlePoseData dur data s')) = switching s'" for data s'
    by (auto simp: handlePoseData_def countdown_defs Let_def
        split: evaluation.splits prod.splits drawn.splits option.splits)
  then show ?thesis
    using OnMessage assms(2)
    by (cases msg) (simp_all add: step_def onmessage_def handlePoseData_other_fields)
next
  case SwitchCamera
  then show ?thesis using assms(3) by simp
qed (simp_all add: assms(2) step_def onopen_def processFrame_def stopCamera_completions
       switching_stopCamera switchCameraResume_def)

lemma run_completions:
  assumes "timerInv s" and "switching s = None" and "SwitchCamera \<notin> set es"
  shows "completions (run dur es s) \<le> Suc (completions s)"
  using assms
proof (induction es arbitrary: s)
  case Nil
  then show ?case by simp
next
  case (Cons e es)
  have e: "e \<noteq> SwitchCamera" and es: "SwitchCamera \<notin> set es"
    using Cons.prems(3) by auto
  note st = step_completions [OF Cons.prems(1,2) e, of dur]
  have inv: "timerInv (step dur e s)" using Cons.prems(1) by (rule step_timerInv)
  from st have "completions (step dur e s) = completions s
                \<or> (completions (step dur e s) = Suc (completions s) \<and> stopped (step dur e s))"
    by blast
  then show ?case
  proof
    assume same: "completions (step dur e s) = completions s"
    from Cons.IH [OF inv _ es] st show ?thesis using same by simp
  next
    assume "completions (step dur e s) = Suc (completions s) \<and> stopped (step dur e s)"
    then show ?thesis by (simp add: run_stopped)
  qed
qed

section \<open>The example sessions\<close>

lemmas session_eval =
  step_def onopen_def onmessage_def processFrame_def handlePoseData_def countdownTick_def
  exerciseCompleted_def stopCamera_def switchCamera_def switchCameraResume_def
  connectWebSocket_def countdown_defs
  pageLoad_def sessionStart_def greenFrame_def yellowFrame_def longGreenFrame_def

lemma holdingExample_eval:
  "holdingExample =
     \<lparr>isTracking = True, countdown = 3, countdownInterval = Some 1, isInCorrectPose = True,
      processingFrame = False, stream = True,
      smoothing = \<lparr>landmarkHistory = [unitFrame], lastLandmarks = Some unitFrame\<rparr>,
      ws = WsOpen, timers = [(1, 1000)], nextTimer = 2, inFlight = 0, completions = 0,
      switching = None\<rparr>"
  by (simp add: holdingExample_def session_eval smoother_eval)

lemma lastSecondExample_eval:
  "lastSecondExample =
     \<lparr>isTracking = True, countdown = 1, countdownInterval = Some 1, isInCorrectPose = True,
      processingFrame = False, stream = True,
      smoothing = \<lparr>landmarkHistory = [unitFrame], lastLandmarks = Some unitFrame\<rparr>,
      ws = WsOpen, timers = [(1, 1000)], nextTimer = 2, inFlight = 0, completions = 0,
      switching = None\<rparr>"
  by (simp add: lastSecondExample_def holdingExample_eval) (simp add: session_eval)

lemma completedExample_eval:
  "step 5 (Tick 1) lastSecondExample =
     \<lparr>isTracking = False, countdown = 0, countdownInterval = None, isInCorrectPose = True,
      processingFrame = False, stream = False, smoothing = freshSmoother,
      ws = WsNone, timers = [], nextTimer = 2, inFlight = 0, completions = 1,
      switching = None\<rparr>"
  by (simp add: lastSecondExample_eval) (simp add: session_eval)

lemma idleExample_eval:
  "idleExample =
     \<lparr>isTracking = True, countdown = 5, countdownInterval = None, isInCorrectPose = False,
      processingFrame = True, stream = True,
      smoothing = \<lparr>landmarkHistory = [unitFrame], lastLandmarks = Some unitFrame\<rparr>,
      ws = WsOpen, timers = [], nextTimer = 1, inFlight = 1, completions = 0,
      switching = None\<rparr>"
  by (simp add: idleExample_def session_eval smoother_eval)

lemma switchAndComplete_eval:
  "run 5 switchAndComplete lastSecondExample =
     \<lparr>isTracking = False, countdown = 0, countdownInterval = None, isInCorrectPose = True,
      processingFrame = False, stream = False, smoothing = freshSmoother,
      ws = WsNone, timers = [], nextTimer = 2, inFlight = 0, completions = 1,
      switching = Some True\<rparr>"
  by (simp add: switchAndComplete_def lastSecondExample_eval) (simp add: session_eval)

lemma reconnectAndHold_eval:
  "run 5 reconnectAndHold (run 5 switchAndComplete lastSecondExample) =
     \<lparr>isTracking = True, countdown = 5, countdownInterval = Some 2, isInCorrectPose = True,
      processingFrame = False, stream = True,
      smoothing = \<lparr>landmarkHistory = [unitFrame, unitFrame], lastLandmarks = Some unitFrame\<rparr>,
      ws = WsOpen, timers = [(2, 1000)], nextTimer = 3, inFlight = 0, completions = 1,
      switching = None\<rparr>"
  by (simp add: switchAndComplete_eval reconnectAndHold_def) (simp add: session_eval smoother_eval)

lemma fiveSeconds_eval:
  "run 5 fiveSeconds (run 5 reconnectAndHold (run 5 switchAndComplete lastSecondExample)) =
     \<lparr>isTracking = False, countdown = 0, countdownInterval = None, isInCorrectPose = True,
      processingFrame = False, stream = False, smoothing = freshSmoother,
      ws = WsNone, timers = [], nextTimer = 3, inFlight = 0, completions = 2,
      switching = None\<rparr>"
  by (simp add: reconnectAndHold_eval fiveSeconds_def) (simp add: session_eval)

section \<open>Completion\<close>

text \<open>
  The completing firing of the timer, in a session with no camera switch pending: the
  completion count grows by one and the session is stopped for good.
\<close>

lemma completing_tick:
  assumes "Holding s" and "t \<in> fst ` set (timers s)" and "countdown s \<le> 1"
    and "switching s = None"
  shows "completions (step dur (Tick t) s) = Suc (completions s)
       \<and> countdown (step dur (Tick t) s) = countdown s - 1
       \<and> stopped (step dur (Tick t) s)
       \<and> (\<forall>es. run dur es (step dur (Tick t) s) = step dur (Tick t) s)
       \<and> (\<forall>es. \<not> Holding (run dur es (step dur (Tick t) s)))"
proof -
  have inv: "timerInv s" using assms(1) by (simp add: timerInv_def)
  have tick: "step dur (Tick t) s = countdownTick s"
    using assms(2) by (simp add: step_def)
  have st: "stopped (step dur (Tick t) s)"
    unfolding tick using inv assms(3,4) by (rule countdownTick_completes(5))
  have fixed: "run dur es (step dur (Tick t) s) = step dur (Tick t) s" for es
    using st by (rule run_stopped)
  have "\<not> Holding (step dur (Tick t) s)"
    using st by (simp add: stopped_def Holding_timers)
  then show ?thesis
    using countdownTick_completes(1,2) [OF inv assms(3)] st fixed
    by (simp add: tick)
qed

text \<open>
  A pending second part of \<open>switchCamera\<close> finds no socket and no stream, so the socket it
  opens replaces none; \<open>stopCamera\<close> does not cancel it, and it reconnects afterwards.
\<close>

lemma switching_finds_no_socket:
  assumes "switching s \<noteq> None \<longrightarrow> ws s = WsNone \<and> \<not> stream s"
  shows "switching (step dur e s) \<noteq> None
           \<longrightarrow> ws (step dur e s) = WsNone \<and> \<not> stream (step dur e s)"
proof (cases e)
  case (OnMessage msg)
  have "switching (fst (handlePoseData dur data s')) = switching s'
        \<and> stream (fst (handlePoseData dur data s')) = stream s'" for data s'
    by (auto simp: handlePoseData_def countdown_defs Let_def
        split: evaluation.splits prod.splits drawn.splits option.splits)
  then show ?thesis
    using OnMessage assms
    by (cases msg) (auto simp: step_def onmessage_def handlePoseData_other_fields)
next
  case (Tick t)
  then show ?thesis
    using assms
    by (auto simp: step_def countdownTick_def exerciseCompleted_def stopCamera_def
        clearInterval_def Let_def split: option.splits)
qed (use assms in \<open>auto simp: step_def onopen_def processFrame_def stopCamera_def
       clearInterval_def switchCamera_def switchCameraResume_def connectWebSocket_def
       split: option.splits\<close>)

lemma resume_after_stop_reconnects:
  assumes "switching s = Some True"
  shows "ws (switchCameraResume True (stopCamera s)) = WsConnecting
       \<and> stream (switchCameraResume True (stopCamera s))"
  using assms
  by (simp add: switchCameraResume_def switching_stopCamera connectWebSocket_def)

section \<open>Holding under events\<close>

lemma handlePoseData_keeps_hold:
  assumes "isInCorrectPose s" and "accuracy \<ge> 70" and "color = ''green''"
  shows "countdown (fst (handlePoseData dur (Success landmarks accuracy feedbackText color) s))
           = countdown s"
    and "timers (fst (handlePoseData dur (Success landmarks accuracy feedbackText color) s))
           = timers s"
    and "isInCorrectPose (fst (handlePoseData dur (Success landmarks accuracy feedbackText color) s))"
    and "countdownInterval (fst (handlePoseData dur (Success landmarks accuracy feedbackText color) s))
           = countdownInterval s"
  using assms
  by (auto simp: handlePoseData_def Let_def split: prod.splits drawn.splits)

lemma step_keeps_hold:
  assumes "Holding s" and "t \<in> fst ` set (timers s)" and "keepsHold e"
    and "e = Tick t \<longrightarrow> 1 < countdown s"
  shows "Holding (step dur e s)"
    and "timers (step dur e s) = timers s"
    and "countdown (step dur e s) = countdown s - (if e = Tick t then 1 else 0)"
proof -
  have only: "t' \<in> fst ` set (timers s) \<Longrightarrow> t' = t" for t'
    using assms(1,2) by (auto simp: Holding_timers)
  have pose: "isInCorrectPose s" using assms(1) by (simp add: Holding_timers)
  have all: "Holding (step dur e s) \<and> timers (step dur e s) = timers s
             \<and> countdown (step dur e s) = countdown s - (if e = Tick t then 1 else 0)"
  proof (cases e)
    case (OnOpen v c)
    then show ?thesis
      using assms(1) timerInv_cong(2) [of "onopen v c s" s]
      by (simp add: step_def onopen_def processFrame_countdown_fields)
  next
    case (ProcessFrame v c)
    then show ?thesis
      using assms(1) timerInv_cong(2) [of "processFrame v c s" s]
      by (simp add: step_def processFrame_countdown_fields)
  next
    case (OnMessage msg)
    show ?thesis
    proof (cases msg)
      case None
      then show ?thesis
        using OnMessage assms(1) by (simp add: step_def onmessage_def Holding_timers)
    next
      case (Some data)
      then have "qualifies data" using assms(3) OnMessage by (simp add: keepsHold_def)
      then obtain landmarks accuracy feedbackText color where
        data: "data = Success landmarks accuracy feedbackText color"
        and q: "accuracy \<ge> 70" "color = ''green''"
        by (cases data) (simp_all add: qualifies_def)
      let ?s0 = "s\<lparr>inFlight := inFlight s - 1\<rparr>"
      have p0: "isInCorrectPose ?s0" using pose by simp
      show ?thesis
        using OnMessage Some data assms(1) handlePoseData_keeps_hold [OF p0 q, of dur landmarks feedbackText]
        by (simp add: step_def onmessage_def Holding_timers)
    qed
  next
    case OnError
    then show ?thesis using assms(1) by (simp add: step_def Holding_timers)
  next
    case OnClose
    then show ?thesis using assms(1) by (simp add: step_def Holding_timers)
  next
    case (Tick t')
    show ?thesis
    proof (cases "t' \<in> fst ` set (timers s)")
      case True
      then have "t' = t" by (rule only)
      then show ?thesis
        using Tick True assms(1,4)
        by (simp add: step_def countdownTick_def Let_def Holding_timers)
    next
      case False
      then have "t' \<noteq> t" using assms(2) by auto
      then show ?thesis
        using Tick False assms(1) by (simp add: step_def)
    qed
  next
    case StopCamera
    then show ?thesis using assms(3) by (simp add: keepsHold_def)
  next
    case SwitchCamera
    then show ?thesis using assms(1) by (simp add: step_def switchCamera_def Holding_timers)
  next
    case (SwitchCameraResume cameraOk)
    then show ?thesis
      using assms(1)
      by (simp add: step_def switchCameraResume_def connectWebSocket_def Holding_timers
          split: option.splits)
  qed
  show "Holding (step dur e s)" using all by simp
  show "timers (step dur e s) = timers s" using all by simp
  show "countdown (step dur e s) = countdown s - (if e = Tick t then 1 else 0)" using all by simp
qed

lemma run_keeps_hold:
  assumes "Holding s" and "t \<in> fst ` set (timers s)" and "\<forall>e \<in> set es. keepsHold e"
    and "int (tickCount t es) < countdown s"
  shows "countdown (run dur es s) = countdown s - int (tickCount t es)
       \<and> Holding (run dur es s) \<and> timers (run dur es s) = timers s"
  using assms
proof (induction es arbitrary: s)
  case Nil
  then show ?case by (simp add: tickCount_def)
next
  case (Cons e es)
  have k: "keepsHold e" using Cons.prems(3) by simp
  have big: "e = Tick t \<longrightarrow> 1 < countdown s"
    using Cons.prems(4) by (auto simp: tickCount_def)
  note st = step_keeps_hold [OF Cons.prems(1,2) k big, of dur]
  have t': "t \<in> fst ` set (timers (step dur e s))"
    using st(2) Cons.prems(2) by simp
  have rest: "\<forall>e \<in> set es. keepsHold e" using Cons.prems(3) by simp
  have count: "tickCount t (e # es) = (if e = Tick t then 1 else 0) + tickCount t es"
    by (simp add: tickCount_def)
  have left: "int (tickCount t es) < countdown (step dur e s)"
    using Cons.prems(4) st(3) count by (auto split: if_splits)
  from Cons.IH [OF st(1) t' rest left]
  show ?case
    using st(2,3) count by (auto split: if_splits)
qed

section \<open>The single-flight invariant\<close>

lemma pipelineInv_connect: "pipelineInv (connectWebSocket s)"
  by (simp add: pipelineInv_def connectWebSocket_def)

lemma processFrame_pipelineInv: "pipelineInv s \<Longrightarrow> pipelineInv (processFrame v c s)"
  by (auto simp: pipelineInv_def processFrame_def)

lemma stopCamera_pipelineInv: "pipelineInv (stopCamera s)"
  by (simp add: pipelineInv_def stopCamera_def clearInterval_def split: option.splits)

lemma countdownTick_pipelineInv: "pipelineInv s \<Longrightarrow> pipelineInv (countdownTick s)"
  by (simp add: countdownTick_def exerciseCompleted_def Let_def stopCamera_pipelineInv)
     (simp add: pipelineInv_def)

lemma step_pipelineInv:
  assumes "pipelineInv s"
  shows "pipelineInv (step dur e s)"
proof (cases e)
  case (OnOpen v c)
  show ?thesis
  proof (cases "ws s = WsConnecting")
    case True
    then have "inFlight s = 0" using assms by (auto simp: pipelineInv_def)
    then have "pipelineInv (s\<lparr>ws := WsOpen, isTracking := True, processingFrame := False\<rparr>)"
      by (simp add: pipelineInv_def)
    then show ?thesis
      using OnOpen True by (simp add: step_def onopen_def processFrame_pipelineInv)
  next
    case False
    then show ?thesis using OnOpen assms by (simp add: step_def)
  qed
next
  case (ProcessFrame v c)
  then show ?thesis using assms by (simp add: step_def processFrame_pipelineInv)
next
  case (OnMessage msg)
  show ?thesis
  proof (cases "ws s = WsOpen \<and> 0 < inFlight s")
    case True
    then have "inFlight s = 1" using assms by (auto simp: pipelineInv_def)
    then show ?thesis
      using OnMessage True
      by (cases msg)
         (simp_all add: step_def onmessage_def pipelineInv_def handlePoseData_other_fields)
  next
    case False
    then show ?thesis using OnMessage assms by (auto simp: step_def)
  qed
next
  case OnError
  then show ?thesis using assms by (simp add: step_def pipelineInv_def)
next
  case OnClose
  then show ?thesis using assms by (simp add: step_def pipelineInv_def)
next
  case (Tick t)
  then show ?thesis using assms by (simp add: step_def countdownTick_pipelineInv)
next
  case StopCamera
  then show ?thesis by (simp add: step_def stopCamera_pipelineInv)
next
  case SwitchCamera
  then show ?thesis using assms by (simp add: step_def switchCamera_def pipelineInv_def)
next
  case (SwitchCameraResume cameraOk)
  then show ?thesis
    using assms
    by (simp add: step_def switchCameraResume_def connectWebSocket_def pipelineInv_def
        split: option.splits)
qed

lemma run_pipelineInv: "pipelineInv s \<Longrightarrow> pipelineInv (run dur es s)"
  by (induction es arbitrary: s) (simp_all add: step_pipelineInv)

lemma busy_drops_frame:
  assumes "pipelineInv s" and "0 < inFlight s"
  shows "processFrame v c s = s"
proof -
  have "processingFrame s" using assms by (auto simp: pipelineInv_def)
  then show ?thesis by (simp add: processFrame_def)
qed

lemma processFrame_sends_when_idle:
  assumes "pipelineInv s" and "inFlight (processFrame v c s) \<noteq> inFlight s"
  shows "inFlight s = 0 \<and> inFlight (processFrame v c s) = 1 \<and> \<not> processingFrame s"
  using assms by (auto simp: pipelineInv_def processFrame_def split: if_splits)

lemma session_single_flight:
  "inFlight (run dur es (connectWebSocket s0)) \<le> 1
   \<and> (0 < inFlight (run dur es (connectWebSocket s0)) \<longrightarrow>
        processFrame videoReady captureOk (run dur es (connectWebSocket s0))
          = run dur es (connectWebSocket s0))
   \<and> (inFlight (processFrame videoReady captureOk (run dur es (connectWebSocket s0)))
        \<noteq> inFlight (run dur es (connectWebSocket s0)) \<longrightarrow>
        inFlight (run dur es (connectWebSocket s0)) = 0 \<and>
        inFlight (processFrame videoReady captureOk (run dur es (connectWebSocket s0))) = 1)"
proof -
  let ?s = "run dur es (connectWebSocket s0)"
  have inv: "pipelineInv ?s"
    using pipelineInv_connect by (rule run_pipelineInv)
  have "inFlight ?s \<le> 1"
    using inv by (simp add: pipelineInv_def)
  moreover have "0 < inFlight ?s \<longrightarrow> processFrame videoReady captureOk ?s = ?s"
    using busy_drops_frame [OF inv] by blast
  moreover have "inFlight (processFrame videoReady captureOk ?s) \<noteq> inFlight ?s \<longrightarrow>
        inFlight ?s = 0 \<and> inFlight (processFrame videoReady captureOk ?s) = 1"
    using processFrame_sends_when_idle [OF inv] by blast
  ultimately show ?thesis by blast
qed

section \<open>Losing the holding condition\<close>

lemma failure_keeps_pose_flag:
  "isInCorrectPose (fst (handlePoseData dur (Failure message) s)) = isInCorrectPose s"
  by (simp add: handlePoseData_def resetCountdown_def clearInterval_def split: option.splits)

lemma holding_reset_by_failed_condition:
  assumes "Holding s" and "framesCover (landmarkHistory (smoothing s)) landmarks"
    and "\<not> (accuracy \<ge> 70 \<and> color = ''green'')"
  shows "\<not> isInCorrectPose (fst (handlePoseData dur (Success landmarks accuracy feedbackText color) s))
       \<and> timers (fst (handlePoseData dur (Success landmarks accuracy feedbackText color) s)) = []
       \<and> countdown (fst (handlePoseData dur (Success landmarks accuracy feedbackText color) s)) = dur"
  using assms(1,3)
  by (auto simp: handlePoseData_Success [OF assms(2)] Let_def countdown_defs Holding_timers)

text \<open>
  A failure message in a holding session clears the timer and keeps the pose flag; a
  green evaluation after it registers no timer.
\<close>

lemma failure_then_green_registers_no_timer:
  assumes "Holding s" and "accuracy \<ge> 70"
  shows "isInCorrectPose (fst (handlePoseData dur (Failure message) s))
       \<and> timers (fst (handlePoseData dur (Failure message) s)) = []
       \<and> countdown (fst (handlePoseData dur (Failure message) s)) = dur
       \<and> timers (fst (handlePoseData dur (Success landmarks accuracy feedbackText ''green'')
                        (fst (handlePoseData dur (Failure message) s)))) = []"
proof -
  let ?s1 = "fst (handlePoseData dur (Failure message) s)"
  have inv: "timerInv s" using assms(1) by (simp add: timerInv_def)
  have pose: "isInCorrectPose ?s1"
    using assms(1) by (simp add: failure_keeps_pose_flag Holding_timers)
  have none: "timers ?s1 = []"
    using timerInv_resetCountdown [OF inv, of dur] by (simp add: handlePoseData_def)
  have full: "countdown ?s1 = dur"
    by (simp add: handlePoseData_def resetCountdown_def)
  have "timers (fst (handlePoseData dur (Success landmarks accuracy feedbackText ''green'') ?s1))
          = timers ?s1"
    using pose assms(2) by (intro handlePoseData_keeps_hold(2)) simp_all
  then show ?thesis using pose none full by simp
qed

text \<open>With the colour of the band, the accuracy test of the countdown gate adds nothing.\<close>

lemma green_band_decides_gate:
  "qualifies (Success landmarks a feedbackText (colorBand a)) \<longleftrightarrow> colorBand a = ''green''"
  by (simp add: qualifies_def colorBand_def)

section \<open>Properties of the countdown and the frame pipeline\<close>

text \<open>
  C1, at a green evaluation whose frame is longer than a buffered one.  The session is
  idle: its first frame, of one landmark, was answered yellow, and the second frame is in
  flight.  The answer is green with accuracy 80 and carries two landmarks.
  \<open>handlePoseData\<close> calls \<open>drawSkeleton\<close> before it looks at the countdown; the weighted
  average reads \<open>frame[1][0]\<close> of the buffered frame and throws a TypeError, which
  \<open>onmessage\<close> catches.  The pose flag stays false and no timer is registered, although
  the accuracy is at least 70 and the colour is green.  The same answer with one landmark
  sets the flag and registers the timer.  For evaluations that \<open>drawSkeleton\<close> can average,
  the flag is set if and only if both conditions hold (lemma \<open>handlePoseData_idle\<close>).
\<close>

theorem longer_frame_keeps_green_evaluation_idle:
  "\<not> isInCorrectPose idleExample
   \<and> ws idleExample = WsOpen \<and> inFlight idleExample = 1
   \<and> landmarkHistory (smoothing idleExample) = [[Landmark 1 1 0 1]]
   \<and> longGreenFrame = Success (Some [Landmark 1 1 0 1, Landmark 1 1 0 1]) 80 [] ''green''
   \<and> snd (handlePoseData 5 longGreenFrame idleExample) = Some TypeError
   \<and> \<not> isInCorrectPose (step 5 (OnMessage (Some longGreenFrame)) idleExample)
   \<and> timers (step 5 (OnMessage (Some longGreenFrame)) idleExample) = []
   \<and> isInCorrectPose (step 5 (OnMessage (Some greenFrame)) idleExample)
   \<and> timers (step 5 (OnMessage (Some greenFrame)) idleExample) = [(1, 1000)]"
  by (simp add: idleExample_eval) (simp add: session_eval smoother_eval)

text \<open>
  C3, at a failure message in a holding session.  The session holds with three of five
  seconds left; a frame is sent and answered with \<open>success\<close> false.  \<open>resetCountdown\<close>
  clears the timer and sets the countdown back to five, but \<open>isInCorrectPose\<close> stays
  true, so the session is not idle.  The next frame is answered green with accuracy 80:
  since the flag is still set, \<open>startCountdown\<close> is not called, no timer is registered and
  the session does not hold.  An evaluation with accuracy below 70 or a colour other than
  green, with landmarks that \<open>drawSkeleton\<close> can average, does clear the flag (lemma
  \<open>holding_reset_by_failed_condition\<close>).
\<close>

theorem failure_while_holding_keeps_pose_flag:
  "Holding holdingExample
   \<and> countdown holdingExample = 3
   \<and> isInCorrectPose
        (run 5 [ProcessFrame True True, OnMessage (Some (Failure None))] holdingExample)
   \<and> timers (run 5 [ProcessFrame True True, OnMessage (Some (Failure None))] holdingExample) = []
   \<and> countdown (run 5 [ProcessFrame True True, OnMessage (Some (Failure None))] holdingExample) = 5
   \<and> isInCorrectPose
        (run 5 [ProcessFrame True True, OnMessage (Some (Failure None)),
                ProcessFrame True True, OnMessage (Some greenFrame)] holdingExample)
   \<and> timers (run 5 [ProcessFrame True True, OnMessage (Some (Failure None)),
                ProcessFrame True True, OnMessage (Some greenFrame)] holdingExample) = []
   \<and> \<not> Holding (run 5 [ProcessFrame True True, OnMessage (Some (Failure None)),
                ProcessFrame True True, OnMessage (Some greenFrame)] holdingExample)"
  by (simp add: holdingExample_eval Holding_def) (simp add: session_eval smoother_eval)

text \<open>
  C4, at a completion while a camera switch is pending.  The session holds with one
  second left.  The camera switch is begun: the socket is dropped and \<open>wasTracking\<close> is
  true; the countdown's timer keeps running.  It fires, the countdown reaches 0 and
  \<open>exerciseCompleted\<close> runs once; \<open>stopCamera\<close> does not cancel the second part of the
  switch.  That part then calls \<open>connectWebSocket\<close>; the socket opens, a frame is answered
  yellow, which clears the pose flag, and the next one green: the session holds again at
  five seconds, and after five firings of the new timer \<open>exerciseCompleted\<close> runs a second
  time.  With no camera switch pending, the completing firing stops the session for good
  (lemma \<open>completing_tick\<close>), and without a camera switch no run completes more than once
  (lemma \<open>run_completions\<close>).
\<close>

theorem completion_repeats_after_camera_switch:
  "Holding lastSecondExample
   \<and> countdown lastSecondExample = 1
   \<and> completions lastSecondExample = 0
   \<and> completions (run 5 switchAndComplete lastSecondExample) = 1
   \<and> ws (run 5 switchAndComplete lastSecondExample) = WsNone
   \<and> switching (run 5 switchAndComplete lastSecondExample) = Some True
   \<and> Holding (run 5 reconnectAndHold (run 5 switchAndComplete lastSecondExample))
   \<and> countdown (run 5 reconnectAndHold (run 5 switchAndComplete lastSecondExample)) = 5
   \<and> completions
        (run 5 fiveSeconds (run 5 reconnectAndHold (run 5 switchAndComplete lastSecondExample)))
      = 2"
proof -
  have before: "Holding lastSecondExample" "countdown lastSecondExample = 1"
    "completions lastSecondExample = 0"
    by (simp_all add: lastSecondExample_eval Holding_def)
  have first: "completions (run 5 switchAndComplete lastSecondExample) = 1"
    "ws (run 5 switchAndComplete lastSecondExample) = WsNone"
    "switching (run 5 switchAndComplete lastSecondExample) = Some True"
    by (simp_all add: switchAndComplete_eval)
  have again: "Holding (run 5 reconnectAndHold (run 5 switchAndComplete lastSecondExample))"
    "countdown (run 5 reconnectAndHold (run 5 switchAndComplete lastSecondExample)) = 5"
    by (simp_all add: reconnectAndHold_eval Holding_def)
  have second: "completions
        (run 5 fiveSeconds (run 5 reconnectAndHold (run 5 switchAndComplete lastSecondExample)))
      = 2"
    by (simp add: fiveSeconds_eval)
  show ?thesis
    using before first again second by blast
qed

text \<open>
  C5.  In a holding session exactly one timer is registered, the countdown's, with a
  delay of 1000 ms.  Over any sequence of events that neither stops the camera nor
  delivers a failing evaluation, however many frames are sent and answered green in it,
  the countdown falls by the number of firings of that timer and by nothing else, as long
  as fewer firings occur than seconds remain; the session keeps holding with the same
  timer; and the next firing takes off exactly one more.  An elapsed second is a firing
  of the timer.
\<close>

theorem countdown_follows_the_timer:
  assumes "Holding s" and "t \<in> fst ` set (timers s)" and "\<forall>e \<in> set es. keepsHold e"
    and "int (tickCount t es) < countdown s"
  shows "timers s = [(t, 1000)]
       \<and> countdown (run dur es s) = countdown s - int (tickCount t es)
       \<and> Holding (run dur es s) \<and> timers (run dur es s) = timers s
       \<and> countdown (step dur (Tick t) (run dur es s)) = countdown (run dur es s) - 1"
proof -
  note r = run_keeps_hold [OF assms, of dur]
  have one: "timers s = [(t, 1000)]"
    using assms(1,2) by (auto simp: Holding_timers)
  have "countdown (step dur (Tick t) (run dur es s)) = countdown (run dur es s) - 1"
    using r one
    by (auto simp: step_def countdownTick_def exerciseCompleted_def stopCamera_def
        clearInterval_def Let_def split: option.splits)
  then show ?thesis using r one by simp
qed

theorem countdown_follows_the_timer_witness:
  "Holding holdingExample
   \<and> 1 \<in> fst ` set (timers holdingExample)
   \<and> countdown holdingExample = 3
   \<and> tickCount 1 [ProcessFrame True True, OnMessage (Some greenFrame), Tick 1,
                   ProcessFrame True True, ProcessFrame True True, Tick 1] = 2
   \<and> countdown (run 5 [ProcessFrame True True, OnMessage (Some greenFrame), Tick 1,
                   ProcessFrame True True, ProcessFrame True True, Tick 1] holdingExample) = 1
   \<and> Holding (run 5 [ProcessFrame True True, OnMessage (Some greenFrame), Tick 1,
                   ProcessFrame True True, ProcessFrame True True, Tick 1] holdingExample)"
proof -
  let ?es = "[ProcessFrame True True, OnMessage (Some greenFrame), Tick 1,
              ProcessFrame True True, ProcessFrame True True, Tick 1]"
  have h: "Holding holdingExample"
    by (simp add: holdingExample_eval Holding_def)
  have t: "1 \<in> fst ` set (timers holdingExample)"
    by (simp add: holdingExample_eval)
  have k: "\<forall>e \<in> set ?es. keepsHold e"
    by (simp add: keepsHold_def qualifies_def greenFrame_def)
  have n: "tickCount 1 ?es = 2"
    by (simp add: tickCount_def)
  have c: "countdown holdingExample = 3"
    by (simp add: holdingExample_eval)
  have less: "int (tickCount 1 ?es) < countdown holdingExample"
    using n c by simp
  note timer = countdown_follows_the_timer [OF h t k less, of 5]
  have "countdown (run 5 ?es holdingExample) = 1"
    using timer n c by simp
  moreover have "Holding (run 5 ?es holdingExample)"
    using timer by blast
  ultimately show ?thesis
    using h t c n by blast
qed

text \<open>
  C8.  In every state that the events of a session reach from \<open>connectWebSocket\<close>, at
  most one frame is in flight.  While one is in flight, \<open>processFrame\<close> leaves the state as
  it is: the frame at hand is neither sent nor kept for later, and the state holds no
  queue.  Whenever \<open>processFrame\<close> does send, nothing was in flight before, that is, the
  answer to the previous frame had been delivered.
\<close>

theorem pipeline_is_single_flight:
  "inFlight (run dur es (connectWebSocket s0)) \<le> 1
   \<and> (0 < inFlight (run dur es (connectWebSocket s0)) \<longrightarrow>
        processFrame videoReady captureOk (run dur es (connectWebSocket s0))
          = run dur es (connectWebSocket s0))
   \<and> (inFlight (processFrame videoReady captureOk (run dur es (connectWebSocket s0)))
        \<noteq> inFlight (run dur es (connectWebSocket s0)) \<longrightarrow>
        inFlight (run dur es (connectWebSocket s0)) = 0 \<and>
        inFlight (processFrame videoReady captureOk (run dur es (connectWebSocket s0))) = 1)"
  by (rule session_single_flight)

theorem pipeline_is_single_flight_witness:
  "inFlight (run 5 [OnOpen True True] sessionStart) = 1
   \<and> processFrame True True (run 5 [OnOpen True True] sessionStart)
        = run 5 [OnOpen True True] sessionStart
   \<and> inFlight (run 5 [OnOpen True True, OnMessage (Some greenFrame)] sessionStart) = 0
   \<and> inFlight (processFrame True True
        (run 5 [OnOpen True True, OnMessage (Some greenFrame)] sessionStart)) = 1"
proof -
  have one: "inFlight (run 5 [OnOpen True True] sessionStart) = 1"
    by (simp add: session_eval)
  have zero: "inFlight (run 5 [OnOpen True True, OnMessage (Some greenFrame)] sessionStart) = 0"
    by (simp add: session_eval smoother_eval)
  have sent: "inFlight (processFrame True True
        (run 5 [OnOpen True True, OnMessage (Some greenFrame)] sessionStart)) = 1"
    by (simp add: session_eval smoother_eval)
  have busy: "0 < inFlight (run 5 [OnOpen True True] sessionStart)"
    using one by simp
  have "processFrame True True (run 5 [OnOpen True True] sessionStart)
          = run 5 [OnOpen True True] sessionStart"
    using busy
      pipeline_is_single_flight [of 5 "[OnOpen True True]" "pageLoad\<lparr>stream := True\<rparr>" True True]
    unfolding sessionStart_def by blast
  then show ?thesis using one zero sent by blast
qed

text \<open>
  C2.  For every accuracy \<open>a\<close> in \<open>[0, 100]\<close> the band is red if and only if \<open>a < 50\<close>,
  yellow if and only if \<open>50 \<le> a < 70\<close>, and green if and only if \<open>a \<ge> 70\<close>; it is one
  of the three; 50 is yellow and 70 is green; and clamping leaves such an \<open>a\<close> as it is.
\<close>

theorem color_bands:
  assumes "0 \<le> a" and "a \<le> 100"
  shows "(colorBand a = ''red'' \<longleftrightarrow> a < 50)
       \<and> (colorBand a = ''yellow'' \<longleftrightarrow> 50 \<le> a \<and> a < 70)
       \<and> (colorBand a = ''green'' \<longleftrightarrow> 70 \<le> a)
       \<and> (colorBand a = ''red'' \<or> colorBand a = ''yellow'' \<or> colorBand a = ''green'')
       \<and> colorBand 50 = ''yellow'' \<and> colorBand 70 = ''green''
       \<and> clampAccuracy a = a"
  using assms by (auto simp: colorBand_def clampAccuracy_def)

theorem color_bands_witness:
  "(0::real) \<le> 70 \<and> (70::real) \<le> 100 \<and> colorBand 70 = ''green''
   \<and> colorBand 70 \<noteq> ''yellow'' \<and> colorBand 70 \<noteq> ''red''"
  using color_bands [of 70] by simp

end
